theory Spec2Isabelle
  imports Main "HOL-Library.Sublist" "HOL-Library.Word"
begin

text \<open>
  A shallow embedding of the fixture-list parser of \<open>src/src/App.tsx\<close>. The file holds
  two versions of the parser, one after the other: \<open>parseBFVText\<close> with its helpers at
  lines 55 to 157, and again at lines 354 to 484. The helpers \<open>normalizeSpaces\<close>,
  \<open>toISODate\<close>, \<open>makeId\<close> and \<open>detectHomeAndSplit\<close> are the same in both. The second
  version knows one more home-ground phrase, recognises section headers by keyword,
  skips a row start that does not match the row pattern, reads the venue lines, and sorts.
  Both versions are modelled; what belongs to the second one ends in \<open>2\<close>.
\<close>

section \<open>Strings of the source language\<close>

text \<open>
  The program is TypeScript; its strings are sequences of UTF-16 code units. A code unit
  is a 16-bit word, a string a list of them. \<open>js\<close> turns an ASCII literal into such a
  string; the three non-ASCII letters of the source's literals are named constants.
\<close>

type_synonym jschar = "16 word"
type_synonym jsstring = "jschar list"

definition js :: "string \<Rightarrow> jsstring" where
  "js s = map of_char s"

definition SPACE :: jschar where "SPACE = 0x20"
definition NBSP :: jschar where "NBSP = 0xA0"
definition LF :: jschar where "LF = 0x0A"
definition CR :: jschar where "CR = 0x0D"
definition u_umlaut :: jschar where "u_umlaut = 0xFC"
definition U_umlaut :: jschar where "U_umlaut = 0xDC"
definition a_umlaut :: jschar where "a_umlaut = 0xE4"

text \<open>
  ECMAScript LineTerminator: LF, CR, U+2028, U+2029. The regular expression atom \<open>.\<close>
  matches every code unit but these.
\<close>

definition isLineTerminator :: "jschar \<Rightarrow> bool" where
  "isLineTerminator c \<longleftrightarrow> c = 0x0A \<or> c = 0x0D \<or> c = 0x2028 \<or> c = 0x2029"

text \<open>
  The class \<open>\s\<close> of a regular expression, which is also what \<open>String.prototype.trim\<close>
  strips: WhiteSpace (TAB, VT, FF, SP, NBSP, ZWNBSP and the category Zs) and
  LineTerminator.
\<close>

definition isSpace :: "jschar \<Rightarrow> bool" where
  "isSpace c \<longleftrightarrow>
     c = 0x09 \<or> c = 0x0B \<or> c = 0x0C \<or> c = 0x20 \<or> c = 0xA0 \<or> c = 0x1680 \<or>
     (0x2000 \<le> c \<and> c \<le> 0x200A) \<or> c = 0x202F \<or> c = 0x205F \<or> c = 0x3000 \<or>
     c = 0xFEFF \<or> isLineTerminator c"

text \<open>The class \<open>\d\<close>: the ten ASCII digits.\<close>

definition isDigit :: "jschar \<Rightarrow> bool" where
  "isDigit c \<longleftrightarrow> 0x30 \<le> c \<and> c \<le> 0x39"

text \<open>\<open>s.trim()\<close>\<close>

definition trim :: "jsstring \<Rightarrow> jsstring" where
  "trim s = rev (dropWhile isSpace (rev (dropWhile isSpace s)))"

text \<open>\<open>s.replace(/U+00A0/g, " ")\<close>: every no-break space becomes a space.\<close>

definition replaceNbsp :: "jsstring \<Rightarrow> jsstring" where
  "replaceNbsp s = map (\<lambda>c. if c = NBSP then SPACE else c) s"

text \<open>
  \<open>s.replace(/\s+/g, " ")\<close>: every maximal run of white space becomes one space.
\<close>

function collapseSpaces :: "jsstring \<Rightarrow> jsstring" where
  "collapseSpaces [] = []"
| "collapseSpaces (c # cs) =
     (if isSpace c then SPACE # collapseSpaces (dropWhile isSpace cs)
      else c # collapseSpaces cs)"
  by pat_completeness auto
termination
  by (relation "measure length") (auto simp: length_dropWhile_le less_Suc_eq_le)

text \<open>\<open>s.startsWith(p)\<close>, \<open>s.endsWith(p)\<close>, \<open>s.includes(p)\<close> (\<open>includes\<close> is a keyword of Isabelle)\<close>

definition startsWith :: "jsstring \<Rightarrow> jsstring \<Rightarrow> bool" where
  "startsWith s p \<longleftrightarrow> prefix p s"

definition endsWith :: "jsstring \<Rightarrow> jsstring \<Rightarrow> bool" where
  "endsWith s p \<longleftrightarrow> suffix p s"

definition jsIncludes :: "jsstring \<Rightarrow> jsstring \<Rightarrow> bool" where
  "jsIncludes s p \<longleftrightarrow> sublist p s"

text \<open>
  \<open>s.lastIndexOf(p)\<close>: the largest index at which \<open>p\<close> occurs in \<open>s\<close>, or \<open>-1\<close>.
\<close>

definition lastIndexOf :: "jsstring \<Rightarrow> jsstring \<Rightarrow> int" where
  "lastIndexOf s p =
     (case filter (\<lambda>i. prefix p (drop i s)) (rev [0 ..< Suc (length s)]) of
        [] \<Rightarrow> - 1
      | i # _ \<Rightarrow> int i)"

text \<open>
  \<open>s.slice(a, b)\<close> with both arguments given: a negative index counts from the end,
  and both are clamped to the string.
\<close>

definition slice :: "jsstring \<Rightarrow> int \<Rightarrow> int \<Rightarrow> jsstring" where
  "slice s a b =
     (let n = int (length s);
          lo = (if a < 0 then max (n + a) 0 else min a n);
          hi = (if b < 0 then max (n + b) 0 else min b n)
      in take (nat (hi - lo)) (drop (nat lo) s))"

text \<open>\<open>s.slice(a)\<close>\<close>

definition sliceFrom :: "jsstring \<Rightarrow> int \<Rightarrow> jsstring" where
  "sliceFrom s a = slice s a (int (length s))"

text \<open>\<open>s.padStart(2, "0")\<close>\<close>

definition padStart2 :: "jsstring \<Rightarrow> jsstring" where
  "padStart2 s = replicate (2 - length s) 0x30 @ s"

text \<open>
  \<open>s.split(sep)\<close> for a one-unit separator, and \<open>txt.split(/\r?\n/)\<close>: the text is cut
  at every LF, and a CR right before the LF goes with it. The first argument is the
  piece read so far.
\<close>

fun splitAt :: "jschar \<Rightarrow> jsstring \<Rightarrow> jsstring \<Rightarrow> jsstring list" where
  "splitAt sep cur [] = [cur]"
| "splitAt sep cur (c # cs) =
     (if c = sep then cur # splitAt sep [] cs else splitAt sep (cur @ [c]) cs)"

fun splitLinesFrom :: "jsstring \<Rightarrow> jsstring \<Rightarrow> jsstring list" where
  "splitLinesFrom cur [] = [cur]"
| "splitLinesFrom cur (c # cs) =
     (if c = LF then cur # splitLinesFrom [] cs
      else if c = CR \<and> take 1 cs = [LF] then cur # splitLinesFrom [] (drop 1 cs)
      else splitLinesFrom (cur @ [c]) cs)"

definition splitLines :: "jsstring \<Rightarrow> jsstring list" where
  "splitLines txt = splitLinesFrom [] txt"

text \<open>
  \<open>Array.prototype.sort(cmp)\<close>: the standard requires a stable sort, and fixes the
  result when the comparator is consistent. The model is the stable insertion sort: an
  element goes before the first later element that it does not exceed.
\<close>

fun insertBy :: "('a \<Rightarrow> 'a \<Rightarrow> int) \<Rightarrow> 'a \<Rightarrow> 'a list \<Rightarrow> 'a list" where
  "insertBy cmp x [] = [x]"
| "insertBy cmp x (y # ys) = (if cmp x y \<le> 0 then x # y # ys else y # insertBy cmp x ys)"

definition sortBy :: "('a \<Rightarrow> 'a \<Rightarrow> int) \<Rightarrow> 'a list \<Rightarrow> 'a list" where
  "sortBy cmp xs = foldr (insertBy cmp) xs []"

text \<open>
  A consistent comparator, as the standard asks of the argument of \<open>sort\<close>: any two
  elements are comparable, and the comparison is transitive.
\<close>

definition consistentComparator :: "('a \<Rightarrow> 'a \<Rightarrow> int) \<Rightarrow> bool" where
  "consistentComparator cmp \<longleftrightarrow>
     (\<forall>a b. cmp a b \<le> 0 \<or> cmp b a \<le> 0)
     \<and> (\<forall>a b c. cmp a b \<le> 0 \<and> cmp b c \<le> 0 \<longrightarrow> cmp a c \<le> 0)"

text \<open>
  Matching under the flag \<open>i\<close> compares canonical code units. The patterns of this
  program hold ASCII letters, digits, \<open>-\<close> and U-umlaut only, and exactly the letter
  itself and its lower-case form canonicalise to such a pattern unit (a unit above 127 is
  never mapped into ASCII), so on comparisons with these patterns the canonical form is:
\<close>

definition regexCanon :: "jschar \<Rightarrow> jschar" where
  "regexCanon c =
     (if 0x61 \<le> c \<and> c \<le> 0x7A then c - 0x20 else if c = u_umlaut then U_umlaut else c)"

definition ciStartsWith :: "jsstring \<Rightarrow> jsstring \<Rightarrow> bool" where
  "ciStartsWith s p \<longleftrightarrow> prefix (map regexCanon p) (map regexCanon s)"

definition ciIncludes :: "jsstring \<Rightarrow> jsstring \<Rightarrow> bool" where
  "ciIncludes s p \<longleftrightarrow> sublist (map regexCanon p) (map regexCanon s)"

section \<open>Functions of the platform\<close>

text \<open>
  The program calls functions that are not its own: \<open>String.prototype.toUpperCase\<close>,
  \<open>toLowerCase\<close> and \<open>localeCompare\<close> (Unicode tables and the locale's collation),
  the library call \<open>dayjs(s).format("YYYY-MM-DD")\<close>, and \<open>String(Number(s))\<close> on a
  string that is not a short run of decimal digits. They are parameters of the model.
\<close>

record platform =
  toUpperCase :: "jsstring \<Rightarrow> jsstring"
  toLowerCase :: "jsstring \<Rightarrow> jsstring"
  localeCompare :: "jsstring \<Rightarrow> jsstring \<Rightarrow> int"
  dayjsFormat :: "jsstring \<Rightarrow> jsstring"
  numberString :: "jsstring \<Rightarrow> jsstring"

section \<open>Domain configuration and data model\<close>

datatype FieldName =
  Field_A | Field_B | Field_C | Frimmersdorf | Vestenbergsgreuth | ASV_Weisendorf_Kunstrasen

definition OUR_TEAM_PREFIXES :: "jsstring list" where
  "OUR_TEAM_PREFIXES =
     [js ''(SG) TSV Lonnerstadt II/ASV Weisendorf'',
      js ''TSV Lonnerstadt 2 (7er)'',
      js ''TSV Lonnerstadt AH'',
      js ''TSV Lonnerstadt 3'',
      js ''TSV Lonnerstadt 2'',
      js ''TSV Lonnerstadt/ ASV Weisendorf'',
      js ''(SG) TSV Lonnerstadt II'',
      js ''(SG) TSV Lonnerstadt'',
      js ''TSV Lonnerstadt'']"

text \<open>
  The interfaces \<open>GameRaw\<close> and \<open>GameItem\<close>. A field name is one constant in
  Isabelle, so the fields \<open>date\<close>, \<open>time\<close>, \<open>venue\<close> and \<open>section\<close> of a raw row are
  \<open>raw_date\<close>, \<open>raw_time\<close>, \<open>raw_venue\<close> and \<open>raw_section\<close>; \<open>id\<close> and \<open>section\<close> of a
  record are \<open>game_id\<close> and \<open>game_section\<close> (\<open>id\<close> is a constant of HOL, \<open>section\<close> a
  keyword).
\<close>

record GameRaw =
  lineIdx :: nat
  spieltyp :: jsstring
  spielklasse :: jsstring
  raw_date :: jsstring
  raw_time :: jsstring
  pairing :: jsstring
  raw_venue :: jsstring
  raw_section :: jsstring

record GameItem =
  game_id :: jsstring
  date :: jsstring
  time :: jsstring
  dt :: jsstring
  game_section :: jsstring
  competition :: jsstring
  homeTeam :: jsstring
  awayTeam :: jsstring
  isHome :: bool
  venue :: jsstring
  suggestedField :: "FieldName option"
  assignedField :: "FieldName option"

text \<open>The object that \<open>detectHomeAndSplit\<close> returns.\<close>

record TeamSplit =
  split_homeTeam :: jsstring
  split_awayTeam :: jsstring
  split_isHome :: bool

section \<open>Helpers\<close>

definition normalizeSpaces :: "jsstring \<Rightarrow> jsstring" where
  "normalizeSpaces s = trim (collapseSpaces (replaceNbsp s))"

text \<open>
  \<open>String(Number(s))\<close>: a run of at most 15 decimal digits denotes its value, printed
  without leading zeros, and the empty string denotes 0.
\<close>

definition stringOfNumber :: "platform \<Rightarrow> jsstring \<Rightarrow> jsstring" where
  "stringOfNumber P s =
     (if list_all isDigit s \<and> length s \<le> 15
      then (let t = dropWhile (\<lambda>c. c = 0x30) s in if t = [] then js ''0'' else t)
      else numberString P s)"

text \<open>
  \<open>String(parts.map(Number)[k])\<close>: destructuring an array that is too short binds
  \<open>undefined\<close>.
\<close>

definition stringOfPart :: "platform \<Rightarrow> jsstring list \<Rightarrow> nat \<Rightarrow> jsstring" where
  "stringOfPart P parts k =
     (if k < length parts then stringOfNumber P (parts ! k) else js ''undefined'')"

definition toISODate :: "platform \<Rightarrow> jsstring \<Rightarrow> jsstring" where
  "toISODate P dmy =
     (let parts = splitAt 0x2E [] dmy;
          d = stringOfPart P parts 0;
          m = stringOfPart P parts 1;
          y = stringOfPart P parts 2
      in dayjsFormat P (y @ js ''-'' @ padStart2 m @ js ''-'' @ padStart2 d))"

definition makeId :: "GameRaw \<Rightarrow> jsstring" where
  "makeId gr =
     raw_date gr @ js ''_'' @ raw_time gr @ js ''_'' @ slice (normalizeSpaces (pairing gr)) 0 60"

text \<open>
  The test of the first loop of \<open>detectHomeAndSplit\<close>, and the predicate of its
  \<open>find\<close>.
\<close>

definition leftMatch :: "jsstring \<Rightarrow> jsstring \<Rightarrow> bool" where
  "leftMatch text p \<longleftrightarrow> startsWith text (p @ js '' '') \<or> text = p"

definition rightMatch :: "jsstring \<Rightarrow> jsstring \<Rightarrow> bool" where
  "rightMatch text p \<longleftrightarrow>
     endsWith text (js '' '' @ p) \<or> text = p \<or> jsIncludes text (js '' '' @ p)"

text \<open>
  \<open>if (rightPrefix)\<close>: the result of \<open>find\<close> counts as true when an element was found
  and it is not the empty string.
\<close>

definition truthy :: "jsstring option \<Rightarrow> bool" where
  "truthy r \<longleftrightarrow> r \<noteq> None \<and> r \<noteq> Some []"

text \<open>
  \<open>OUR_TEAM_PREFIXES.sort((a, b) => b.length - a.length)\<close> sorts the array of variants
  in place, longest first; \<open>find\<close> then reads the sorted array, and so does every later
  call. The array is a parameter here, and both phases read its sorted form; sorting a
  sorted array again changes nothing (\<open>sortByLengthDesc_idem\<close> below).
\<close>

definition sortByLengthDesc :: "jsstring list \<Rightarrow> jsstring list" where
  "sortByLengthDesc ps = sortBy (\<lambda>a b. int (length b) - int (length a)) ps"

definition detectHomeAndSplit :: "jsstring list \<Rightarrow> jsstring \<Rightarrow> TeamSplit" where
  "detectHomeAndSplit variants p =
     (let text = normalizeSpaces p;
          ordered = sortByLengthDesc variants
      in case find (leftMatch text) ordered of
           Some leftPrefix \<Rightarrow>
             \<lparr>split_homeTeam = leftPrefix,
              split_awayTeam = trim (sliceFrom text (int (length leftPrefix))),
              split_isHome = True\<rparr>
         | None \<Rightarrow>
             (let rightPrefix = find (rightMatch text) ordered in
              if truthy rightPrefix then
                \<lparr>split_homeTeam = trim (slice text 0 (lastIndexOf text (the rightPrefix))),
                 split_awayTeam = the rightPrefix,
                 split_isHome = False\<rparr>
              else \<lparr>split_homeTeam = text, split_awayTeam = [], split_isHome = False\<rparr>))"

text \<open>The two versions of \<open>suggestFieldFromVenue\<close> in \<open>App.tsx\<close>.\<close>

definition platzField :: "jsstring \<Rightarrow> FieldName" where
  "platzField v =
     (if jsIncludes v (js ''platz 1'') then Field_A
      else if jsIncludes v (js ''platz 2'') then Field_B
      else if jsIncludes v (js ''platz 3'') then Field_C
      else Field_A)"

definition suggestFieldFromVenue :: "platform \<Rightarrow> jsstring \<Rightarrow> FieldName option" where
  "suggestFieldFromVenue P ven =
     (let v = toLowerCase P ven in
      if jsIncludes v (js ''frimmersdorf'') then Some Frimmersdorf
      else if jsIncludes v (js ''vestenbergsgreuth'') then Some Vestenbergsgreuth
      else if jsIncludes v (js ''weisendorf'') \<and> jsIncludes v (js ''kunstrasen'')
        then Some ASV_Weisendorf_Kunstrasen
      else if jsIncludes v (js ''am sonnenh'' @ [u_umlaut] @ js ''gel'') then Some (platzField v)
      else None)"

definition suggestFieldFromVenue2 :: "platform \<Rightarrow> jsstring \<Rightarrow> FieldName option" where
  "suggestFieldFromVenue2 P ven =
     (let v = toLowerCase P ven in
      if jsIncludes v (js ''frimmersdorf'') then Some Frimmersdorf
      else if jsIncludes v (js ''vestenbergsgreuth'') then Some Vestenbergsgreuth
      else if jsIncludes v (js ''weisendorf'') \<and> jsIncludes v (js ''kunstrasen'')
        then Some ASV_Weisendorf_Kunstrasen
      else if jsIncludes v (js ''am sonnenh'' @ [u_umlaut] @ js ''gel'')
              \<or> jsIncludes v (js ''sportgel'' @ [a_umlaut] @ js ''nde'')
        then Some (platzField v)
      else None)"

text \<open>
  \<open>mapRawToGame\<close> of the first version, and the arrow function that the second version
  maps over its rows; they differ in the field suggester that they call.
\<close>

definition assemble :: "platform \<Rightarrow> (jsstring \<Rightarrow> FieldName option) \<Rightarrow> GameRaw \<Rightarrow> GameItem option" where
  "assemble P suggest gr =
     (if toUpperCase P (raw_time gr) = js ''SPIELFREI'' then None
      else
        (let sp = detectHomeAndSplit OUR_TEAM_PREFIXES (pairing gr);
             iso = toISODate P (raw_date gr);
             sortKey = iso @ js ''T''
                       @ (if length (raw_time gr) = 4 then js ''0'' @ raw_time gr else raw_time gr)
                       @ js '':00'';
             comp = trim (spieltyp gr @ js '' '' @ spielklasse gr);
             sug = (if split_isHome sp then suggest (raw_venue gr) else None)
         in Some \<lparr>game_id = makeId gr, date = iso, time = raw_time gr, dt = sortKey,
                  game_section = raw_section gr, competition = comp,
                  homeTeam = split_homeTeam sp, awayTeam = split_awayTeam sp,
                  isHome = split_isHome sp, venue = raw_venue gr,
                  suggestedField = sug, assignedField = sug\<rparr>))"

definition mapRawToGame :: "platform \<Rightarrow> GameRaw \<Rightarrow> GameItem option" where
  "mapRawToGame P gr = assemble P (suggestFieldFromVenue P) gr"

definition mapRawToGame2 :: "platform \<Rightarrow> GameRaw \<Rightarrow> GameItem option" where
  "mapRawToGame2 P gr = assemble P (suggestFieldFromVenue2 P) gr"

section \<open>Line classifier and row tokenizer\<close>

text \<open>
  \<open>txt.split(/\r?\n/).map((l) => l.replace(/U+00A0/g, " ").trim()).filter((l) => l.length > 0)\<close>
\<close>

definition linesOf :: "jsstring \<Rightarrow> jsstring list" where
  "linesOf txt = filter (\<lambda>l. length l > 0) (map (\<lambda>l. trim (replaceNbsp l)) (splitLines txt))"

definition TYPE_CODES :: "jsstring list" where
  "TYPE_CODES = [js ''FS'', js ''ME'', js ''PO'']"

text \<open>\<open>/^(FS|ME|PO)\s+/.test(l)\<close>\<close>

definition isRowStart :: "jsstring \<Rightarrow> bool" where
  "isRowStart l \<longleftrightarrow>
     take 2 l \<in> set TYPE_CODES \<and> (case drop 2 l of [] \<Rightarrow> False | c # _ \<Rightarrow> isSpace c)"

text \<open>The first version: membership in the list of section names.\<close>

definition SECTION_NAMES :: "jsstring list" where
  "SECTION_NAMES =
     [js ''Herren '' @ [U_umlaut] @ js ''32'', js ''Herren'', js ''Herren-Reserve'',
      js ''A-Junioren'', js ''B-Junioren'', js ''C-Junioren'', js ''D-Junioren'',
      js ''E-Junioren'', js ''Frauen'', js ''C-Juniorinnen'', js ''E-Juniorinnen'']"

definition isHeaderSection :: "jsstring \<Rightarrow> bool" where
  "isHeaderSection l \<longleftrightarrow> collapseSpaces l \<in> set SECTION_NAMES"

text \<open>
  The second version:
  \<open>/(Herren|Frauen|A-|B-|C-|D-|E-|F-|G-|Junioren|Juniorinnen|U-umlaut 32)/i.test(l)\<close>,
  a keyword anywhere in the line, in any letter case.
\<close>

definition SECTION_KEYWORDS :: "jsstring list" where
  "SECTION_KEYWORDS =
     [js ''Herren'', js ''Frauen'', js ''A-'', js ''B-'', js ''C-'', js ''D-'', js ''E-'',
      js ''F-'', js ''G-'', js ''Junioren'', js ''Juniorinnen'', [U_umlaut] @ js ''32'']"

definition isHeaderSection2 :: "jsstring \<Rightarrow> bool" where
  "isHeaderSection2 l \<longleftrightarrow> list_ex (ciIncludes l) SECTION_KEYWORDS"

text \<open>\<open>/^Kursiv|^Ergebnisse|^VEREINSSPIELPLAN|^Seite/i.test(l)\<close>\<close>

definition isBoilerplate :: "jsstring \<Rightarrow> bool" where
  "isBoilerplate l \<longleftrightarrow>
     list_ex (ciStartsWith l)
       [js ''Kursiv'', js ''Ergebnisse'', js ''VEREINSSPIELPLAN'', js ''Seite'']"

text \<open>
  \<open>line.match(/^(FS|ME|PO)\s+(.*)$/)\<close>, as the pair of its two groups. \<open>\s+\<close> takes the
  whole run of white space after the code, and \<open>(.*)$\<close> has to reach the end of the
  line, which it does unless a line terminator is in its way; giving back white space
  does not remove that terminator, so backtracking finds no other match.
\<close>

definition typeMatch :: "jsstring \<Rightarrow> (jsstring \<times> jsstring) option" where
  "typeMatch l =
     (if isRowStart l then
        (let rest = dropWhile isSpace (drop 2 l) in
         if list_ex isLineTerminator rest then None else Some (take 2 l, rest))
      else None)"

text \<open>\<open>\d{2}\.\d{2}\.\d{4}\<close> and \<open>\d{2}:\d{2}\<close>, on a whole string.\<close>

definition isDatePattern :: "jsstring \<Rightarrow> bool" where
  "isDatePattern s \<longleftrightarrow>
     list_all2 (\<lambda>p c. p c)
       [isDigit, isDigit, (=) 0x2E, isDigit, isDigit, (=) 0x2E,
        isDigit, isDigit, isDigit, isDigit] s"

definition isTimePattern :: "jsstring \<Rightarrow> bool" where
  "isTimePattern s \<longleftrightarrow> list_all2 (\<lambda>p c. p c) [isDigit, isDigit, (=) 0x3A, isDigit, isDigit] s"

text \<open>
  The part \<open>\s(\d{2}\.\d{2}\.\d{4})\s(\d{2}:\d{2}|SPIELFREI)\s(.*)$\<close> of the row pattern,
  matched at the start of \<open>s\<close>: the groups date, time and pairing. The two alternatives
  of the time exclude each other.
\<close>

definition dateTimeTail :: "jsstring \<Rightarrow> (jsstring \<times> jsstring \<times> jsstring) option" where
  "dateTimeTail s =
     (case s of
        [] \<Rightarrow> None
      | c1 # s1 \<Rightarrow>
          if \<not> isSpace c1 \<or> \<not> isDatePattern (take 10 s1) then None
          else
            (case drop 10 s1 of
               [] \<Rightarrow> None
             | c2 # s2 \<Rightarrow>
                 if \<not> isSpace c2 then None
                 else
                   (let n = (if isTimePattern (take 5 s2) then 5
                             else if take 9 s2 = js ''SPIELFREI'' then 9 else 0)
                    in if n = 0 then None
                       else
                         (case drop n s2 of
                            [] \<Rightarrow> None
                          | c3 # s3 \<Rightarrow>
                              if isSpace c3 \<and> \<not> list_ex isLineTerminator s3
                              then Some (take 10 s1, take n s2, s3)
                              else None))))"

text \<open>
  \<open>rest.match(/^(.*?)\s(\d{2}\.\d{2}\.\d{4})\s(\d{2}:\d{2}|SPIELFREI)\s(.*)$/)\<close>: the lazy
  group \<open>(.*?)\<close> grows by one code unit at a time, never over a line terminator, until
  the rest of the pattern matches. \<open>pre\<close> is the group so far.
\<close>

fun dateTimeScan ::
  "jsstring \<Rightarrow> jsstring \<Rightarrow> (jsstring \<times> jsstring \<times> jsstring \<times> jsstring) option" where
  "dateTimeScan pre [] = None"
| "dateTimeScan pre (c # cs) =
     (case dateTimeTail (c # cs) of
        Some (d, t, p) \<Rightarrow> Some (pre, d, t, p)
      | None \<Rightarrow> if isLineTerminator c then None else dateTimeScan (pre @ [c]) cs)"

definition dateTimeMatch ::
  "jsstring \<Rightarrow> (jsstring \<times> jsstring \<times> jsstring \<times> jsstring) option" where
  "dateTimeMatch rest = dateTimeScan [] rest"

section \<open>The first version of the parser (App.tsx, lines 116 to 157)\<close>

text \<open>
  The row that the loop pushes: the groups of the match, or four empty strings when
  the row pattern did not match.
\<close>

definition rawOfMatch ::
  "nat \<Rightarrow> jsstring \<Rightarrow> (jsstring \<times> jsstring \<times> jsstring \<times> jsstring) option \<Rightarrow> jsstring \<Rightarrow> GameRaw" where
  "rawOfMatch i typ m sec =
     (case m of
        Some (k, d, t, p) \<Rightarrow>
          \<lparr>lineIdx = i, spieltyp = typ, spielklasse = trim k, raw_date = d, raw_time = t,
           pairing = trim p, raw_venue = [], raw_section = sec\<rparr>
      | None \<Rightarrow>
          \<lparr>lineIdx = i, spieltyp = typ, spielklasse = [], raw_date = [], raw_time = [],
           pairing = [], raw_venue = [], raw_section = sec\<rparr>)"

text \<open>
  The \<open>for\<close> loop over the index \<open>i\<close>, with the current section and the rows pushed so
  far. \<open>None\<close> stands for a loop that does not end.
\<close>

partial_function (option) scanRows ::
  "jsstring list \<Rightarrow> nat \<Rightarrow> jsstring \<Rightarrow> GameRaw list \<Rightarrow> GameRaw list option" where
  "scanRows lines i currentSection raws =
     (if i < length lines then
        (if isHeaderSection (lines ! i) then scanRows lines (i + 1) (lines ! i) raws
         else if \<not> isRowStart (lines ! i) then scanRows lines (i + 1) currentSection raws
         else
           (case typeMatch (lines ! i) of
              None \<Rightarrow> scanRows lines (i + 1) currentSection raws
            | Some m \<Rightarrow>
                scanRows lines (i + 1) currentSection
                  (raws @ [rawOfMatch i (fst m) (dateTimeMatch (snd m)) currentSection])))
      else Some raws)"

declare scanRows.simps [code]

definition parseBFVText :: "platform \<Rightarrow> jsstring \<Rightarrow> GameItem list option" where
  "parseBFVText P txt =
     map_option (List.map_filter (mapRawToGame P)) (scanRows (linesOf txt) 0 [] [])"

section \<open>The second version of the parser (App.tsx, lines 399 to 484)\<close>

text \<open>
  The inner \<open>while\<close> loop: from line \<open>j\<close> on, lines that start neither a row nor a
  section are joined into the venue, boilerplate lines apart. It returns the index where
  it stopped and the venue.
\<close>

partial_function (option) venueLoop ::
  "jsstring list \<Rightarrow> nat \<Rightarrow> jsstring \<Rightarrow> (nat \<times> jsstring) option" where
  "venueLoop lines j ven =
     (if j < length lines \<and> \<not> isRowStart (lines ! j) \<and> \<not> isHeaderSection2 (lines ! j) then
        (if isBoilerplate (lines ! j) then venueLoop lines (j + 1) ven
         else venueLoop lines (j + 1) (ven @ (if ven \<noteq> [] then js '' '' else []) @ lines ! j))
      else Some (j, ven))"

declare venueLoop.simps [code]

text \<open>The row that the outer loop pushes, from the four groups of the match.\<close>

definition rawOfGroups ::
  "nat \<Rightarrow> jsstring \<Rightarrow> jsstring \<times> jsstring \<times> jsstring \<times> jsstring \<Rightarrow> jsstring \<Rightarrow> jsstring \<Rightarrow> GameRaw" where
  "rawOfGroups i typ g ven sec =
     (case g of
        (k, d, t, p) \<Rightarrow>
          \<lparr>lineIdx = i, spieltyp = typ, spielklasse = trim k, raw_date = d, raw_time = t,
           pairing = trim p, raw_venue = trim ven, raw_section = sec\<rparr>)"

text \<open>
  The outer \<open>for\<close> loop. After a row it sets \<open>i = j - 1\<close>, and the loop's own \<open>i++\<close>
  follows.
\<close>

partial_function (option) scanRows2 ::
  "jsstring list \<Rightarrow> nat \<Rightarrow> jsstring \<Rightarrow> GameRaw list \<Rightarrow> GameRaw list option" where
  "scanRows2 lines i currentSection raws =
     (if i < length lines then
        (if isHeaderSection2 (lines ! i) then scanRows2 lines (i + 1) (lines ! i) raws
         else if \<not> isRowStart (lines ! i) then scanRows2 lines (i + 1) currentSection raws
         else
           (case typeMatch (lines ! i) of
              None \<Rightarrow> scanRows2 lines (i + 1) currentSection raws
            | Some m \<Rightarrow>
                (case dateTimeMatch (snd m) of
                   None \<Rightarrow> scanRows2 lines (i + 1) currentSection raws
                 | Some g \<Rightarrow>
                     (case venueLoop lines (i + 1) [] of
                        None \<Rightarrow> None
                      | Some jv \<Rightarrow>
                          scanRows2 lines ((fst jv - 1) + 1) currentSection
                            (raws @ [rawOfGroups i (fst m) g (snd jv) currentSection])))))
      else Some raws)"

declare scanRows2.simps [code]

definition parseBFVText2 :: "platform \<Rightarrow> jsstring \<Rightarrow> GameItem list option" where
  "parseBFVText2 P txt =
     map_option
       (\<lambda>raws. sortBy (\<lambda>a b. localeCompare P (dt a) (dt b)) (List.map_filter (mapRawToGame2 P) raws))
       (scanRows2 (linesOf txt) 0 [] [])"

section \<open>The normal form of white space\<close>

text \<open>
  A string in which every white-space unit is a space that is followed by a unit that is
  not white space.
\<close>

fun singleSpaced :: "jsstring \<Rightarrow> bool" where
  "singleSpaced [] = True"
| "singleSpaced [c] = (isSpace c \<longrightarrow> c = SPACE)"
| "singleSpaced (c # d # cs) =
     ((isSpace c \<longrightarrow> c = SPACE \<and> \<not> isSpace d) \<and> singleSpaced (d # cs))"

section \<open>A sample platform and sample inputs\<close>

text \<open>
  A concrete platform on which the definitions can be run: ASCII case mapping,
  comparison by code units, and a date formatter that returns a well-formed ISO date
  as it is and \<open>Invalid Date\<close> for any other string.
\<close>

definition asciiUpper :: "jschar \<Rightarrow> jschar" where
  "asciiUpper c = (if 0x61 \<le> c \<and> c \<le> 0x7A then c - 0x20 else c)"

definition asciiLower :: "jschar \<Rightarrow> jschar" where
  "asciiLower c = (if 0x41 \<le> c \<and> c \<le> 0x5A then c + 0x20 else c)"

fun unitCompare :: "jsstring \<Rightarrow> jsstring \<Rightarrow> int" where
  "unitCompare [] [] = 0"
| "unitCompare [] (y # ys) = - 1"
| "unitCompare (x # xs) [] = 1"
| "unitCompare (x # xs) (y # ys) =
     (if x < y then - 1 else if y < x then 1 else unitCompare xs ys)"

definition isoOrInvalid :: "jsstring \<Rightarrow> jsstring" where
  "isoOrInvalid s =
     (if list_all2 (\<lambda>p c. p c)
           [isDigit, isDigit, isDigit, isDigit, (=) 0x2D, isDigit, isDigit, (=) 0x2D,
            isDigit, isDigit] s
      then s else js ''Invalid Date'')"

definition samplePlatform :: platform where
  "samplePlatform =
     \<lparr>toUpperCase = map asciiUpper, toLowerCase = map asciiLower,
      localeCompare = unitCompare, dayjsFormat = isoOrInvalid,
      numberString = (\<lambda>s. js ''NaN'')\<rparr>"

text \<open>An away fixture, and the same fixture after a row without a match (a bye).\<close>

definition sampleAwayText :: jsstring where
  "sampleAwayText = js ''ME Kreisliga 22.09.2025 10:00 SC Adelsdorf TSV Lonnerstadt''"

definition sampleAwayGame :: GameItem where
  "sampleAwayGame =
     \<lparr>game_id = js ''22.09.2025_10:00_SC Adelsdorf TSV Lonnerstadt'',
      date = js ''2025-09-22'', time = js ''10:00'', dt = js ''2025-09-22T10:00:00'',
      game_section = [], competition = js ''ME Kreisliga'',
      homeTeam = js ''SC Adelsdorf'', awayTeam = js ''TSV Lonnerstadt'', isHome = False,
      venue = [], suggestedField = None, assignedField = None\<rparr>"

definition sampleByeText :: jsstring where
  "sampleByeText =
     js ''ME Gruppe 23.09.2025 SPIELFREI TSV Lonnerstadt'' @ [LF] @ sampleAwayText"

definition sampleByeRaw :: GameRaw where
  "sampleByeRaw =
     \<lparr>lineIdx = 0, spieltyp = js ''ME'', spielklasse = js ''Gruppe'',
      raw_date = js ''23.09.2025'', raw_time = js ''SPIELFREI'',
      pairing = js ''TSV Lonnerstadt'', raw_venue = [], raw_section = []\<rparr>"

text \<open>
  A row start whose remainder does not match the row pattern (the kickoff is missing),
  with the row and the record that the first parser makes of it; and a raw row of a
  home fixture with its record.
\<close>

definition sampleUnmatchedText :: jsstring where
  "sampleUnmatchedText = js ''ME Gruppe 23.09.2025 (SG) TSV Lonnerstadt SPIELFREI''"

definition sampleUnmatchedRaw :: GameRaw where
  "sampleUnmatchedRaw =
     \<lparr>lineIdx = 0, spieltyp = js ''ME'', spielklasse = [], raw_date = [], raw_time = [],
      pairing = [], raw_venue = [], raw_section = []\<rparr>"

definition sampleUnmatchedGame :: GameItem where
  "sampleUnmatchedGame =
     \<lparr>game_id = js ''__'', date = js ''Invalid Date'', time = [],
      dt = js ''Invalid DateT:00'', game_section = [], competition = js ''ME'',
      homeTeam = [], awayTeam = [], isHome = False, venue = [],
      suggestedField = None, assignedField = None\<rparr>"

definition sampleHomeRaw :: GameRaw where
  "sampleHomeRaw =
     \<lparr>lineIdx = 0, spieltyp = js ''ME'', spielklasse = js ''Kreisliga'',
      raw_date = js ''21.09.2025'', raw_time = js ''15:00'',
      pairing = js ''TSV Lonnerstadt SpVgg Reuth'',
      raw_venue = js ''Lonnerstadt, Am Sonnenh'' @ [u_umlaut] @ js ''gel, Platz 2'',
      raw_section = js ''Herren''\<rparr>"

definition sampleHomeGame :: GameItem where
  "sampleHomeGame =
     \<lparr>game_id = js ''21.09.2025_15:00_TSV Lonnerstadt SpVgg Reuth'',
      date = js ''2025-09-21'', time = js ''15:00'', dt = js ''2025-09-21T15:00:00'',
      game_section = js ''Herren'', competition = js ''ME Kreisliga'',
      homeTeam = js ''TSV Lonnerstadt'', awayTeam = js ''SpVgg Reuth'', isHome = True,
      venue = js ''Lonnerstadt, Am Sonnenh'' @ [u_umlaut] @ js ''gel, Platz 2'',
      suggestedField = Some Field_B, assignedField = Some Field_B\<rparr>"

text \<open>A row whose kickoff is the sentinel in lower case.\<close>

definition sampleLowerByeText :: jsstring where
  "sampleLowerByeText = js ''ME Kreisliga 21.09.2025 spielfrei TSV Lonnerstadt''"

text \<open>A pairing that three variants match, each a prefix of the next.\<close>

definition sampleChainPairing :: jsstring where
  "sampleChainPairing = js ''TSV Lonnerstadt 2 (7er) SpVgg Reuth''"

text \<open>A pairing with a double space, a no-break space and a trailing space.\<close>

definition sampleSpacedPairing :: jsstring where
  "sampleSpacedPairing = js ''TSV  Lonnerstadt'' @ [NBSP] @ js ''SpVgg Reuth ''"

text \<open>
  Two fixtures out of date order, the second under a section header and with a venue
  line; and the record that the first parser, which reads no venue, makes of the second.
\<close>

definition sampleUnorderedText :: jsstring where
  "sampleUnorderedText =
     sampleAwayText @ [LF] @ js ''Herren'' @ [LF]
     @ js ''ME Kreisliga 21.09.2025 15:00 TSV Lonnerstadt SpVgg Reuth'' @ [LF]
     @ js ''Lonnerstadt, Am Sonnenh'' @ [u_umlaut] @ js ''gel, Platz 2''"

definition sampleHomeGameNoVenue :: GameItem where
  "sampleHomeGameNoVenue =
     sampleHomeGame\<lparr>venue := [], suggestedField := None, assignedField := None\<rparr>"

section \<open>Properties of the library functions\<close>

lemma set_insertBy: "set (insertBy cmp x ys) = insert x (set ys)"
  by (induction ys) auto

lemma set_sortBy: "set (sortBy cmp xs) = set xs"
  by (induction xs) (simp_all add: sortBy_def set_insertBy)

lemma in_map_filterD: "y \<in> set (List.map_filter f xs) \<Longrightarrow> \<exists>x\<in>set xs. f x = Some y"
  by (auto simp: List.map_filter_def)

lemma map_filter_drop_None:
  "List.map_filter f (filter (\<lambda>x. f x \<noteq> None) xs) = List.map_filter f xs"
  by (induction xs) (auto simp: List.map_filter_def)

lemma find_None_set: "find Q xs = None \<longleftrightarrow> (\<forall>x\<in>set xs. \<not> Q x)"
  by (induction xs) auto

lemma find_SomeD: "find Q xs = Some x \<Longrightarrow> x \<in> set xs \<and> Q x"
  by (induction xs) (auto split: if_splits)

lemma sorted_insertBy:
  assumes "consistentComparator cmp" and "sorted_wrt (\<lambda>a b. cmp a b \<le> 0) ys"
  shows "sorted_wrt (\<lambda>a b. cmp a b \<le> 0) (insertBy cmp x ys)"
  using assms(2)
proof (induction ys)
  case Nil
  then show ?case by simp
next
  case (Cons y ys)
  from assms(1) have tot: "\<And>a b. cmp a b \<le> 0 \<or> cmp b a \<le> 0"
    and tr: "\<And>a b c. cmp a b \<le> 0 \<Longrightarrow> cmp b c \<le> 0 \<Longrightarrow> cmp a c \<le> 0"
    unfolding consistentComparator_def by blast+
  show ?case
  proof (cases "cmp x y \<le> 0")
    case True
    with Cons.prems tr show ?thesis by auto
  next
    case False
    with tot have "cmp y x \<le> 0" by blast
    with False Cons show ?thesis by (auto simp: set_insertBy)
  qed
qed

lemma sorted_sortBy:
  "consistentComparator cmp \<Longrightarrow> sorted_wrt (\<lambda>a b. cmp a b \<le> 0) (sortBy cmp xs)"
  by (induction xs) (simp_all add: sortBy_def sorted_insertBy)

lemma isSpace_SPACE: "isSpace SPACE"
  by (simp add: isSpace_def SPACE_def)

lemma js_space: "js '' '' = [SPACE]"
  by (simp add: js_def SPACE_def)

lemma sliceFrom_nat: "sliceFrom s (int k) = drop k s"
  by (simp add: sliceFrom_def slice_def Let_def min_def)

lemma collapseSpaces_hd:
  "\<not> isSpace c \<Longrightarrow> collapseSpaces (c # cs) = c # collapseSpaces cs"
  by simp

lemma dropWhile_cases:
  obtains "dropWhile Q xs = []" | y ys where "dropWhile Q xs = y # ys" "\<not> Q y"
  by (metis hd_dropWhile list.exhaust list.sel(1))

lemma singleSpaced_collapse: "singleSpaced (collapseSpaces s)"
proof (induction s rule: collapseSpaces.induct)
  case 1
  then show ?case by simp
next
  case (2 c cs)
  show ?case
  proof (cases "isSpace c")
    case True
    show ?thesis
    proof (cases rule: dropWhile_cases[of isSpace cs])
      case 1
      with True show ?thesis by (simp del: dropWhile_eq_Nil_conv)
    next
      case (2 y ys)
      with True "2.IH"(1) show ?thesis by (simp del: dropWhile_eq_Nil_conv)
    qed
  next
    case False
    with "2.IH"(2) show ?thesis
      by (cases "collapseSpaces cs") simp_all
  qed
qed

lemma singleSpaced_tl: "singleSpaced (c # cs) \<Longrightarrow> singleSpaced cs"
  by (cases cs) simp_all

lemma singleSpaced_dropWhile: "singleSpaced s \<Longrightarrow> singleSpaced (dropWhile Q s)"
  by (induction s) (auto dest: singleSpaced_tl)

lemma singleSpaced_append_left: "singleSpaced (xs @ ys) \<Longrightarrow> singleSpaced xs"
proof (induction xs rule: singleSpaced.induct)
  case 1
  then show ?case by simp
next
  case (2 c)
  then show ?case by (cases ys) simp_all
next
  case (3 c d cs)
  then show ?case by simp
qed

lemma singleSpaced_append_right: "singleSpaced (xs @ ys) \<Longrightarrow> singleSpaced ys"
  by (induction xs) (auto dest: singleSpaced_tl)

lemma trim_is_middle: "\<exists>u w. s = u @ trim s @ w"
proof -
  obtain u where u: "s = u @ dropWhile isSpace s"
    by (metis takeWhile_dropWhile_id)
  let ?m = "dropWhile isSpace s"
  have "rev ?m = takeWhile isSpace (rev ?m) @ dropWhile isSpace (rev ?m)" by simp
  then have "?m = rev (dropWhile isSpace (rev ?m)) @ rev (takeWhile isSpace (rev ?m))"
    by (metis rev_append rev_rev_ident)
  with u show ?thesis unfolding trim_def by metis
qed

lemma singleSpaced_trim: "singleSpaced s \<Longrightarrow> singleSpaced (trim s)"
  using trim_is_middle[of s]
  by (metis singleSpaced_append_left singleSpaced_append_right)

lemma trim_ends:
  assumes "trim s \<noteq> []"
  shows "\<not> isSpace (hd (trim s))" and "\<not> isSpace (last (trim s))"
proof -
  let ?m = "dropWhile isSpace s"
  from assms have ne: "dropWhile isSpace (rev ?m) \<noteq> []" by (simp add: trim_def)
  then have "\<not> isSpace (hd (dropWhile isSpace (rev ?m)))" by (rule hd_dropWhile)
  with ne show "\<not> isSpace (last (trim s))" by (simp add: trim_def last_rev)
  have m: "?m \<noteq> []"
  proof
    assume "?m = []"
    then have "dropWhile isSpace (rev ?m) = []" by (simp only: rev.simps dropWhile.simps)
    with ne show False ..
  qed
  then have h: "\<not> isSpace (hd ?m)" by (rule hd_dropWhile)
  have "hd (trim s) = hd ?m"
  proof -
    obtain w where "?m = trim s @ w"
    proof -
      have "rev ?m = takeWhile isSpace (rev ?m) @ dropWhile isSpace (rev ?m)" by simp
      then have "?m = rev (dropWhile isSpace (rev ?m)) @ rev (takeWhile isSpace (rev ?m))"
        by (metis rev_append rev_rev_ident)
      then show ?thesis using that unfolding trim_def by blast
    qed
    with assms show ?thesis by (metis hd_append2)
  qed
  with h show "\<not> isSpace (hd (trim s))" by simp
qed

lemma trim_id:
  assumes "s = [] \<or> (\<not> isSpace (hd s) \<and> \<not> isSpace (last s))"
  shows "trim s = s"
proof (cases s)
  case Nil
  then show ?thesis by (simp add: trim_def)
next
  case (Cons c cs)
  with assms have h: "\<not> isSpace c" and l: "\<not> isSpace (last s)" by simp_all
  from h Cons have "dropWhile isSpace s = s" by simp
  moreover have "dropWhile isSpace (rev s) = rev s"
  proof -
    from Cons have "rev s \<noteq> []" by simp
    then obtain y ys where ys: "rev s = y # ys" by (cases "rev s") auto
    with Cons have "y = last s" by (metis hd_rev list.sel(1))
    with l have "dropWhile isSpace (y # ys) = y # ys" by simp
    with ys show ?thesis by (simp only:)
  qed
  ultimately show ?thesis by (simp add: trim_def)
qed

lemma singleSpaced_after_space:
  "singleSpaced (v @ SPACE # r) \<Longrightarrow> r = [] \<or> \<not> isSpace (hd r)"
proof -
  assume "singleSpaced (v @ SPACE # r)"
  then have "singleSpaced (SPACE # r)" by (rule singleSpaced_append_right)
  then show ?thesis by (cases r) (simp_all add: isSpace_SPACE)
qed

lemma normalizeSpaces_form:
  "singleSpaced (normalizeSpaces p)"
  "normalizeSpaces p \<noteq> [] \<Longrightarrow> \<not> isSpace (hd (normalizeSpaces p))"
  "normalizeSpaces p \<noteq> [] \<Longrightarrow> \<not> isSpace (last (normalizeSpaces p))"
  unfolding normalizeSpaces_def
  by (simp_all add: singleSpaced_trim singleSpaced_collapse trim_ends)

lemma filter_insertBy_tie:
  assumes "consistentComparator cmp"
  shows "filter (\<lambda>g. cmp k (f g) \<le> 0 \<and> cmp (f g) k \<le> 0)
           (insertBy (\<lambda>a b. cmp (f a) (f b)) x ys) =
         (if cmp k (f x) \<le> 0 \<and> cmp (f x) k \<le> 0
          then x # filter (\<lambda>g. cmp k (f g) \<le> 0 \<and> cmp (f g) k \<le> 0) ys
          else filter (\<lambda>g. cmp k (f g) \<le> 0 \<and> cmp (f g) k \<le> 0) ys)"
proof (induction ys)
  case Nil
  then show ?case by simp
next
  case (Cons y ys)
  from assms have tr: "\<And>a b c. cmp a b \<le> 0 \<Longrightarrow> cmp b c \<le> 0 \<Longrightarrow> cmp a c \<le> 0"
    unfolding consistentComparator_def by blast
  show ?case
  proof (cases "cmp (f x) (f y) \<le> 0")
    case True
    then show ?thesis by simp
  next
    case False
    have "\<not> (cmp k (f y) \<le> 0 \<and> cmp (f y) k \<le> 0)" if "cmp k (f x) \<le> 0 \<and> cmp (f x) k \<le> 0"
      using False that tr by blast
    with False Cons.IH show ?thesis by auto
  qed
qed

lemma filter_sortBy_tie:
  assumes "consistentComparator cmp"
  shows "filter (\<lambda>g. cmp k (f g) \<le> 0 \<and> cmp (f g) k \<le> 0)
           (sortBy (\<lambda>a b. cmp (f a) (f b)) xs) =
         filter (\<lambda>g. cmp k (f g) \<le> 0 \<and> cmp (f g) k \<le> 0) xs"
proof (induction xs)
  case Nil
  then show ?case by (simp add: sortBy_def)
next
  case (Cons x xs)
  have "sortBy (\<lambda>a b. cmp (f a) (f b)) (x # xs)
        = insertBy (\<lambda>a b. cmp (f a) (f b)) x (sortBy (\<lambda>a b. cmp (f a) (f b)) xs)"
    by (simp add: sortBy_def)
  with Cons show ?case by (simp add: filter_insertBy_tie[OF assms])
qed

lemma consistent_on_key:
  "consistentComparator cmp \<Longrightarrow> consistentComparator (\<lambda>a b. cmp (f a) (f b))"
  unfolding consistentComparator_def by blast

lemma unitCompare_total: "unitCompare a b \<le> 0 \<or> unitCompare b a \<le> 0"
  by (induction a b rule: unitCompare.induct) auto

lemma unitCompare_trans:
  "unitCompare a b \<le> 0 \<Longrightarrow> unitCompare b c \<le> 0 \<Longrightarrow> unitCompare a c \<le> 0"
proof (induction a b arbitrary: c rule: unitCompare.induct)
  case 1
  then show ?case by simp
next
  case (2 y ys)
  then show ?case by (cases c) simp_all
next
  case (3 x xs)
  then show ?case by simp
next
  case (4 x xs y ys)
  show ?case
  proof (cases c)
    case Nil
    with 4 show ?thesis by (auto split: if_splits)
  next
    case (Cons z zs)
    with "4.prems" "4.IH"[of zs] show ?thesis
      by (auto split: if_splits)
  qed
qed

lemma unitCompare_consistent: "consistentComparator unitCompare"
  unfolding consistentComparator_def using unitCompare_total unitCompare_trans by blast

lemma isSpace_NBSP: "isSpace NBSP"
  by (simp add: isSpace_def NBSP_def)

lemma ink_dropWhile:
  "filter (\<lambda>c. \<not> isSpace c) (dropWhile isSpace s) = filter (\<lambda>c. \<not> isSpace c) s"
  by (induction s) simp_all

lemma ink_trim: "filter (\<lambda>c. \<not> isSpace c) (trim s) = filter (\<lambda>c. \<not> isSpace c) s"
proof -
  have "filter (\<lambda>c. \<not> isSpace c) (trim s)
        = rev (filter (\<lambda>c. \<not> isSpace c) (dropWhile isSpace (rev (dropWhile isSpace s))))"
    by (simp add: trim_def rev_filter)
  also have "\<dots> = rev (filter (\<lambda>c. \<not> isSpace c) (rev (dropWhile isSpace s)))"
    by (simp only: ink_dropWhile)
  also have "\<dots> = filter (\<lambda>c. \<not> isSpace c) (dropWhile isSpace s)"
    by (simp add: rev_filter)
  finally show ?thesis by (simp only: ink_dropWhile)
qed

lemma ink_collapseSpaces:
  "filter (\<lambda>c. \<not> isSpace c) (collapseSpaces s) = filter (\<lambda>c. \<not> isSpace c) s"
  by (induction s rule: collapseSpaces.induct) (simp_all add: isSpace_SPACE ink_dropWhile)

lemma ink_replaceNbsp:
  "filter (\<lambda>c. \<not> isSpace c) (replaceNbsp s) = filter (\<lambda>c. \<not> isSpace c) s"
  by (induction s) (auto simp: replaceNbsp_def isSpace_SPACE isSpace_NBSP)

lemma ink_normalizeSpaces:
  "filter (\<lambda>c. \<not> isSpace c) (normalizeSpaces s) = filter (\<lambda>c. \<not> isSpace c) s"
  by (simp add: normalizeSpaces_def ink_trim ink_collapseSpaces ink_replaceNbsp)

lemma ink_nonempty: "\<exists>c\<in>set s. \<not> isSpace c \<Longrightarrow> f s \<noteq> []"
  if "filter (\<lambda>c. \<not> isSpace c) (f s) = filter (\<lambda>c. \<not> isSpace c) s"
proof
  assume "\<exists>c\<in>set s. \<not> isSpace c" and "f s = []"
  with that have "filter (\<lambda>c. \<not> isSpace c) s = []" by simp
  with \<open>\<exists>c\<in>set s. \<not> isSpace c\<close> show False by (auto simp: filter_empty_conv)
qed

lemma sorted_le_last: "sorted xs \<Longrightarrow> x \<in> set xs \<Longrightarrow> x \<le> last xs" for x :: nat
  by (induction xs) auto

lemma lastIndexOf_ge:
  assumes "prefix p (drop j s)" and "j \<le> length s"
  shows "int j \<le> lastIndexOf s p"
proof -
  define fs where "fs = filter (\<lambda>i. prefix p (drop i s)) [0 ..< Suc (length s)]"
  from assms have j: "j \<in> set fs"
    unfolding fs_def by (simp del: upt_Suc add: less_Suc_eq_le)
  then have ne: "fs \<noteq> []" by (cases fs) simp_all
  have "sorted fs" unfolding fs_def by (rule sorted_wrt_filter) (simp del: upt_Suc)
  from sorted_le_last[OF this j] have le: "j \<le> last fs" .
  from ne have "rev fs = rev (butlast fs @ [last fs])" by simp
  then have r: "rev fs = last fs # rev (butlast fs)" by simp
  have f: "filter (\<lambda>i. prefix p (drop i s)) (rev [0 ..< Suc (length s)]) = rev fs"
    unfolding fs_def by (simp only: rev_filter)
  have "lastIndexOf s p = int (last fs)"
    unfolding lastIndexOf_def f r by (simp only: list.case)
  with le show ?thesis by simp
qed


lemma ink_trim_ex: "\<exists>c\<in>set p. \<not> isSpace c \<Longrightarrow> \<exists>c\<in>set (trim p). \<not> isSpace c"
proof -
  assume "\<exists>c\<in>set p. \<not> isSpace c"
  then have "filter (\<lambda>c. \<not> isSpace c) p \<noteq> []" by (auto simp: filter_empty_conv)
  then have "filter (\<lambda>c. \<not> isSpace c) (trim p) \<noteq> []" by (simp add: ink_trim)
  then show ?thesis by (auto simp: filter_empty_conv)
qed

section \<open>Properties of the home and away splitter\<close>

lemma leftMatch_rest:
  assumes "leftMatch (normalizeSpaces p) v"
  shows "(normalizeSpaces p = v \<and> trim (sliceFrom (normalizeSpaces p) (int (length v))) = [])
       \<or> (\<exists>r. r \<noteq> [] \<and> normalizeSpaces p = v @ SPACE # r
              \<and> trim (sliceFrom (normalizeSpaces p) (int (length v))) = r)"
proof (cases "normalizeSpaces p = v")
  case True
  then show ?thesis by (simp add: sliceFrom_nat trim_def)
next
  case False
  let ?t = "normalizeSpaces p"
  from False assms obtain r where t: "?t = v @ SPACE # r"
    by (auto simp: leftMatch_def startsWith_def js_space prefix_def)
  then have ne: "?t \<noteq> []" by simp
  from normalizeSpaces_form(3)[OF ne] t have r: "r \<noteq> []"
    by (auto simp: isSpace_SPACE)
  from normalizeSpaces_form(1)[of p] t have "r = [] \<or> \<not> isSpace (hd r)"
    by (metis singleSpaced_after_space)
  with r have hr: "\<not> isSpace (hd r)" by simp
  from normalizeSpaces_form(3)[OF ne] t r have lr: "\<not> isSpace (last r)" by simp
  have "trim (SPACE # r) = trim r" by (simp add: trim_def isSpace_SPACE)
  also from hr lr have "\<dots> = r" by (intro trim_id) simp
  finally have "trim (sliceFrom ?t (int (length v))) = r"
    by (simp add: sliceFrom_nat t)
  with r t show ?thesis by blast
qed

lemma consistent_by_length:
  "consistentComparator (\<lambda>a b :: jsstring. int (length b) - int (length a))"
  by (auto simp: consistentComparator_def)

lemma sortByLengthDesc_sorted:
  "sorted_wrt (\<lambda>a b. length b \<le> length a) (sortByLengthDesc ps)"
  using sorted_sortBy[OF consistent_by_length, of ps]
  by (simp add: sortByLengthDesc_def)

lemma sortBy_sorted_id:
  "sorted_wrt (\<lambda>a b. cmp a b \<le> 0) xs \<Longrightarrow> sortBy cmp xs = xs"
proof (induction xs)
  case Nil
  then show ?case by (simp add: sortBy_def)
next
  case (Cons x xs)
  then have "sortBy cmp (x # xs) = insertBy cmp x xs" by (simp add: sortBy_def)
  also from Cons.prems have "\<dots> = x # xs" by (cases xs) simp_all
  finally show ?case .
qed

lemma sortByLengthDesc_idem: "sortByLengthDesc (sortByLengthDesc ps) = sortByLengthDesc ps"
  unfolding sortByLengthDesc_def
  by (intro sortBy_sorted_id sorted_sortBy consistent_by_length)

lemma set_sortByLengthDesc: "set (sortByLengthDesc ps) = set ps"
  by (simp add: sortByLengthDesc_def set_sortBy)

lemma find_first_longest:
  assumes "sorted_wrt (\<lambda>a b. length b \<le> length a) xs"
    and "find Q xs = Some h" and "v \<in> set xs" and "Q v"
  shows "length v \<le> length h"
  using assms by (induction xs) (auto split: if_splits)

lemma detect_left_homeTeam:
  assumes "find (leftMatch (normalizeSpaces p)) (sortByLengthDesc variants) = Some h"
  shows "detectHomeAndSplit variants p =
           \<lparr>split_homeTeam = h,
            split_awayTeam = trim (sliceFrom (normalizeSpaces p) (int (length h))),
            split_isHome = True\<rparr>"
  using assms by (simp add: detectHomeAndSplit_def Let_def)

lemma detect_isHome_iff:
  "split_isHome (detectHomeAndSplit variants p)
   \<longleftrightarrow> (\<exists>v\<in>set variants. leftMatch (normalizeSpaces p) v)"
proof (cases "find (leftMatch (normalizeSpaces p)) (sortByLengthDesc variants)")
  case None
  then have "\<not> (\<exists>v\<in>set variants. leftMatch (normalizeSpaces p) v)"
    by (simp add: find_None_set sortByLengthDesc_def set_sortBy)
  with None show ?thesis
    by (simp add: detectHomeAndSplit_def Let_def split: option.split)
next
  case (Some v)
  then have "v \<in> set variants \<and> leftMatch (normalizeSpaces p) v"
    by (auto simp: sortByLengthDesc_def set_sortBy dest: find_SomeD)
  with Some show ?thesis
    by (auto simp: detectHomeAndSplit_def Let_def)
qed

lemma rightMatch_embedded:
  assumes "rightMatch text r" and "text \<noteq> r"
  shows "\<exists>u w. text = u @ SPACE # r @ w"
proof -
  from assms have "sublist (SPACE # r) text"
    by (auto simp: rightMatch_def endsWith_def jsIncludes_def js_space)
  then show ?thesis by (auto simp: sublist_def)
qed

lemma detect_homeTeam_nonempty:
  assumes "\<forall>v\<in>set variants. v \<noteq> []" and "normalizeSpaces p \<noteq> []"
  shows "split_homeTeam (detectHomeAndSplit variants p) \<noteq> []"
proof (cases "find (leftMatch (normalizeSpaces p)) (sortByLengthDesc variants)")
  case (Some h)
  from find_SomeD[OF Some] assms(1) have "h \<noteq> []" by (simp add: set_sortByLengthDesc)
  then show ?thesis by (simp add: detect_left_homeTeam[OF Some])
next
  case None
  let ?text = "normalizeSpaces p"
  let ?rp = "find (rightMatch ?text) (sortByLengthDesc variants)"
  show ?thesis
  proof (cases "truthy ?rp")
    case False
    with None assms(2) show ?thesis by (simp add: detectHomeAndSplit_def Let_def)
  next
    case True
    then obtain r where r: "?rp = Some r" by (auto simp: truthy_def)
    from find_SomeD[OF r] have rv: "r \<in> set variants" and rm: "rightMatch ?text r"
      by (simp_all add: set_sortByLengthDesc)
    from None rv have "\<not> leftMatch ?text r" by (simp add: find_None_set set_sortByLengthDesc)
    then have "?text \<noteq> r" by (auto simp: leftMatch_def)
    from rightMatch_embedded[OF rm this] obtain u w where t: "?text = u @ SPACE # r @ w"
      by blast
    then have "prefix r (drop (Suc (length u)) ?text)" "Suc (length u) \<le> length ?text"
      by simp_all
    from lastIndexOf_ge[OF this] have idx: "1 \<le> lastIndexOf ?text r" by simp
    define n where "n = nat (min (lastIndexOf ?text r) (int (length ?text)))"
    from idx assms(2) have n: "0 < n" by (cases ?text) (simp_all add: n_def)
    from idx have sl: "slice ?text 0 (lastIndexOf ?text r) = take n ?text"
      by (simp add: slice_def Let_def n_def)
    from n assms(2) have "hd ?text \<in> set (take n ?text)"
      by (cases ?text; cases n) simp_all
    with normalizeSpaces_form(2)[OF assms(2)]
    have "\<exists>c\<in>set (take n ?text). \<not> isSpace c" by blast
    then have "trim (take n ?text) \<noteq> []" by (rule ink_nonempty[OF ink_trim])
    with None True r sl show ?thesis by (simp add: detectHomeAndSplit_def Let_def)
  qed
qed

lemma variants_nonempty: "\<forall>v\<in>set OUR_TEAM_PREFIXES. v \<noteq> []"
  by (simp add: OUR_TEAM_PREFIXES_def js_def)

section \<open>Properties of the field suggester\<close>

lemma suggest_home_ground:
  assumes "v = toLowerCase P ven"
    and "\<not> jsIncludes v (js ''frimmersdorf'')"
    and "\<not> jsIncludes v (js ''vestenbergsgreuth'')"
    and "\<not> (jsIncludes v (js ''weisendorf'') \<and> jsIncludes v (js ''kunstrasen''))"
  shows "jsIncludes v (js ''am sonnenh'' @ [u_umlaut] @ js ''gel'')
           \<Longrightarrow> suggestFieldFromVenue P ven = Some (platzField v)"
    and "jsIncludes v (js ''am sonnenh'' @ [u_umlaut] @ js ''gel'')
           \<or> jsIncludes v (js ''sportgel'' @ [a_umlaut] @ js ''nde'')
           \<Longrightarrow> suggestFieldFromVenue2 P ven = Some (platzField v)"
  using assms(2-4) unfolding assms(1) suggestFieldFromVenue_def suggestFieldFromVenue2_def Let_def
  by (simp_all only: if_False if_True HOL.simp_thms)

section \<open>Properties of the row tokenizer\<close>

lemma linesOf_trimmed:
  assumes "l \<in> set (linesOf txt)"
  shows "l \<noteq> []" and "\<not> isSpace (last l)"
proof -
  from assms obtain x where "l = trim x" and "l \<noteq> []" by (auto simp: linesOf_def)
  then show "l \<noteq> []" and "\<not> isSpace (last l)" using trim_ends(2)[of x] by simp_all
qed

lemma typeMatch_suffix: "typeMatch l = Some m \<Longrightarrow> suffix (snd m) l"
proof -
  assume "typeMatch l = Some m"
  then have "snd m = dropWhile isSpace (drop 2 l)"
    by (auto simp: typeMatch_def Let_def split: if_splits)
  moreover have "suffix (dropWhile isSpace (drop 2 l)) (drop 2 l)" by (rule suffix_dropWhile)
  moreover have "suffix (drop 2 l) l" by (rule suffix_drop)
  ultimately show ?thesis by (metis suffix_order.trans)
qed

lemma dateTimeTail_groups:
  assumes "dateTimeTail s = Some (d, t, p)"
  shows "isDatePattern d" and "isTimePattern t \<or> t = js ''SPIELFREI''"
    and "\<exists>u c. s = u @ c # p \<and> isSpace c"
proof -
  from assms obtain c1 s1 where s: "s = c1 # s1" by (cases s) (simp_all add: dateTimeTail_def)
  from assms s have dp: "isDatePattern (take 10 s1)"
    by (auto simp: dateTimeTail_def split: if_splits)
  from assms s dp obtain c2 s2 where s1: "drop 10 s1 = c2 # s2"
    by (cases "drop 10 s1") (auto simp: dateTimeTail_def split: if_splits)
  define n :: nat where
    "n = (if isTimePattern (take 5 s2) then 5 else if take 9 s2 = js ''SPIELFREI'' then 9 else 0)"
  from assms s dp s1 have n0: "n \<noteq> 0"
    by (auto simp: dateTimeTail_def Let_def n_def split: if_splits)
  from assms s dp s1 n0 obtain c3 where s2: "drop n s2 = c3 # p" and c3: "isSpace c3"
    and d: "d = take 10 s1" and t: "t = take n s2"
    by (cases "drop n s2") (auto simp: dateTimeTail_def Let_def n_def split: if_splits)
  from d dp show "isDatePattern d" by simp
  from t n0 show "isTimePattern t \<or> t = js ''SPIELFREI''"
    by (auto simp: n_def split: if_splits)
  have "s1 = take 10 s1 @ drop 10 s1" by simp
  moreover have "s2 = take n s2 @ drop n s2" by simp
  ultimately have "s = (c1 # take 10 s1 @ c2 # take n s2) @ c3 # p"
    using s s1 s2 by (metis append_Cons append_assoc)
  with c3 show "\<exists>u c. s = u @ c # p \<and> isSpace c" by blast
qed

lemma dateTimeScan_groups:
  assumes "dateTimeScan pre s = Some (k, d, t, p)"
  shows "isDatePattern d \<and> (isTimePattern t \<or> t = js ''SPIELFREI'')
         \<and> (\<exists>u c. s = u @ c # p \<and> isSpace c)"
  using assms
proof (induction s arbitrary: pre)
  case Nil
  then show ?case by simp
next
  case (Cons c cs)
  show ?case
  proof (cases "dateTimeTail (c # cs)")
    case None
    with Cons.prems have "dateTimeScan (pre @ [c]) cs = Some (k, d, t, p)"
      by (simp split: if_splits)
    from Cons.IH[OF this] show ?thesis by (metis append_Cons)
  next
    case (Some g)
    with Cons.prems have "dateTimeTail (c # cs) = Some (d, t, p)"
      by (cases g) (auto split: prod.splits)
    from dateTimeTail_groups[OF this] show ?thesis by simp
  qed
qed

lemma row_groups:
  assumes "l \<noteq> []" and "\<not> isSpace (last l)"
    and "typeMatch l = Some m" and "dateTimeMatch (snd m) = Some (k, d, t, p)"
  shows "isDatePattern d" and "isTimePattern t \<or> t = js ''SPIELFREI''"
    and "\<exists>c\<in>set p. \<not> isSpace c"
proof -
  from dateTimeScan_groups[OF assms(4)[unfolded dateTimeMatch_def]]
  obtain u c where g: "isDatePattern d" "isTimePattern t \<or> t = js ''SPIELFREI''"
    and r: "snd m = u @ c # p" and c: "isSpace c"
    by blast
  from g show "isDatePattern d" and "isTimePattern t \<or> t = js ''SPIELFREI''" .
  from typeMatch_suffix[OF assms(3)] r obtain w where l: "l = w @ c # p"
    by (auto simp: suffix_def)
  show "\<exists>c\<in>set p. \<not> isSpace c"
  proof (cases p)
    case Nil
    with l c assms(2) show ?thesis by simp
  next
    case (Cons a as)
    with l have "last l = last p" by simp
    with assms(2) Cons show ?thesis by (metis last_in_set list.discI)
  qed
qed


section \<open>Properties of the record assembler\<close>

lemma assemble_None_iff:
  "assemble P suggest gr = None \<longleftrightarrow> toUpperCase P (raw_time gr) = js ''SPIELFREI''"
  by (simp add: assemble_def Let_def)

lemma assemble_SomeD:
  assumes "assemble P suggest gr = Some g"
  shows "toUpperCase P (raw_time gr) \<noteq> js ''SPIELFREI''"
    and "time g = raw_time gr"
    and "isHome g = split_isHome (detectHomeAndSplit OUR_TEAM_PREFIXES (pairing gr))"
    and "homeTeam g = split_homeTeam (detectHomeAndSplit OUR_TEAM_PREFIXES (pairing gr))"
    and "suggestedField g = (if isHome g then suggest (raw_venue gr) else None)"
    and "venue g = raw_venue gr"
  using assms by (auto simp: assemble_def Let_def split: if_splits)

lemma parseBFVText_recordD:
  assumes "parseBFVText P txt = Some gs" and "g \<in> set gs"
  shows "\<exists>gr. mapRawToGame P gr = Some g"
proof -
  from assms obtain raws where "g \<in> set (List.map_filter (mapRawToGame P) raws)"
    by (auto simp: parseBFVText_def)
  then show ?thesis by (blast dest: in_map_filterD)
qed

lemma parseBFVText2_recordD:
  assumes "parseBFVText2 P txt = Some gs" and "g \<in> set gs"
  shows "\<exists>gr. mapRawToGame2 P gr = Some g"
proof -
  from assms obtain raws where "g \<in> set (List.map_filter (mapRawToGame2 P) raws)"
    by (auto simp: parseBFVText2_def set_sortBy)
  then show ?thesis by (blast dest: in_map_filterD)
qed

section \<open>Termination of the loops\<close>

lemma scanRows_terminates: "\<exists>r. scanRows lines i sec raws = Some r"
proof (induction "length lines - i" arbitrary: i sec raws rule: less_induct)
  case less
  show ?case
  proof (cases "i < length lines")
    case False
    then show ?thesis by (subst scanRows.simps) simp
  next
    case True
    then have "length lines - (i + 1) < length lines - i" by simp
    from less[OF this] have "\<And>sec raws. \<exists>r. scanRows lines (i + 1) sec raws = Some r" by blast
    then show ?thesis
      by (subst scanRows.simps) (simp split: option.split)
  qed
qed

lemma venueLoop_terminates:
  "\<exists>j' v. venueLoop lines j ven = Some (j', v) \<and> j \<le> j'"
proof (induction "length lines - j" arbitrary: j ven rule: less_induct)
  case less
  show ?case
  proof (cases "j < length lines \<and> \<not> isRowStart (lines ! j) \<and> \<not> isHeaderSection2 (lines ! j)")
    case False
    then show ?thesis by (subst venueLoop.simps) auto
  next
    case True
    then have "length lines - (j + 1) < length lines - j" by linarith
    from less[OF this]
    have "\<And>ven. \<exists>j' v. venueLoop lines (j + 1) ven = Some (j', v) \<and> j + 1 \<le> j'" by blast
    then have "\<And>ven. \<exists>j' v. venueLoop lines (j + 1) ven = Some (j', v) \<and> j \<le> j'"
      by (meson add_leD1)
    with True show ?thesis
      by (subst venueLoop.simps) simp
  qed
qed

lemma venueLoop_bound:
  "venueLoop lines j ven = Some (j', v) \<Longrightarrow> j \<le> j'"
  using venueLoop_terminates[of lines j ven] by auto

lemma scanRows2_terminates: "\<exists>r. scanRows2 lines i sec raws = Some r"
proof (induction "length lines - i" arbitrary: i sec raws rule: less_induct)
  case less
  show ?case
  proof (cases "i < length lines")
    case False
    then show ?thesis by (subst scanRows2.simps) simp
  next
    case True
    have step: "\<exists>r. scanRows2 lines k sec' raws' = Some r" if "i < k" for k sec' raws'
    proof -
      from that True have "length lines - k < length lines - i" by simp
      from less[OF this] show ?thesis by blast
    qed
    obtain j' v where jv: "venueLoop lines (i + 1) [] = Some (j', v)" and le: "i + 1 \<le> j'"
      using venueLoop_terminates[of lines "i + 1" "[]"] by blast
    from le have "j' - 1 + 1 = j'" "i < j'" by simp_all
    with jv True step show ?thesis
      by (subst scanRows2.simps) (simp split: option.split)
  qed
qed

section \<open>The rows and records of the second version\<close>

text \<open>
  Every row that the second parser pushes comes from a line that matched the row pattern:
  its date and kickoff are well formed and its pairing is not empty, and the record made of
  it has a home team.
\<close>

lemma scanRows2_all:
  assumes step: "\<And>k m g ven s. k < length lines \<Longrightarrow> typeMatch (lines ! k) = Some m
                   \<Longrightarrow> dateTimeMatch (snd m) = Some g \<Longrightarrow> Q (rawOfGroups k (fst m) g ven s)"
    and "scanRows2 lines i sec raws = Some r" and "\<forall>x\<in>set raws. Q x"
  shows "\<forall>x\<in>set r. Q x"
  using assms(2,3)
proof (induction "length lines - i" arbitrary: i sec raws rule: less_induct)
  case less
  show ?case
  proof (cases "i < length lines")
    case False
    with less.prems show ?thesis by (subst (asm) scanRows2.simps) simp
  next
    case True
    have IH: "\<forall>x\<in>set r. Q x"
      if "i < k" "scanRows2 lines k sec' raws' = Some r" "\<forall>x\<in>set raws'. Q x" for k sec' raws'
    proof -
      from that(1) True have "length lines - k < length lines - i" by simp
      from less.hyps[OF this that(2,3)] show ?thesis .
    qed
    obtain j' v where jv: "venueLoop lines (i + 1) [] = Some (j', v)" and le: "i + 1 \<le> j'"
      using venueLoop_terminates[of lines "i + 1" "[]"] by blast
    from le have j: "j' - 1 + 1 = j'" "i < j'" by simp_all
    show ?thesis
    proof (cases "isHeaderSection2 (lines ! i)")
      case True
      with less.prems(1) \<open>i < length lines\<close>
      have "scanRows2 lines (i + 1) (lines ! i) raws = Some r"
        by (subst (asm) scanRows2.simps) simp
      then show ?thesis using IH[of "i + 1"] less.prems(2) by simp
    next
      case nh: False
      show ?thesis
      proof (cases "isRowStart (lines ! i)")
        case False
        with nh less.prems(1) \<open>i < length lines\<close>
        have "scanRows2 lines (i + 1) sec raws = Some r"
          by (subst (asm) scanRows2.simps) simp
        then show ?thesis using IH[of "i + 1"] less.prems(2) by simp
      next
        case rs: True
        show ?thesis
        proof (cases "typeMatch (lines ! i)")
          case None
          with nh rs less.prems(1) \<open>i < length lines\<close>
          have "scanRows2 lines (i + 1) sec raws = Some r"
            by (subst (asm) scanRows2.simps) simp
          then show ?thesis using IH[of "i + 1"] less.prems(2) by simp
        next
          case m: (Some m)
          show ?thesis
          proof (cases "dateTimeMatch (snd m)")
            case None
            with nh rs m less.prems(1) \<open>i < length lines\<close>
            have "scanRows2 lines (i + 1) sec raws = Some r"
              by (subst (asm) scanRows2.simps) simp
            then show ?thesis using IH[of "i + 1"] less.prems(2) by simp
          next
            case g: (Some g)
            from nh rs m g jv j less.prems(1) \<open>i < length lines\<close>
            have "scanRows2 lines j' sec (raws @ [rawOfGroups i (fst m) g v sec]) = Some r"
              by (subst (asm) scanRows2.simps) simp
            moreover from step[OF \<open>i < length lines\<close> m g] less.prems(2)
            have "\<forall>x\<in>set (raws @ [rawOfGroups i (fst m) g v sec]). Q x" by simp
            ultimately show ?thesis using IH[OF j(2)] by blast
          qed
        qed
      qed
    qed
  qed
qed

lemma scanRows2_rows:
  assumes "scanRows2 (linesOf txt) 0 [] [] = Some raws" and "gr \<in> set raws"
  shows "isDatePattern (raw_date gr)"
    and "isTimePattern (raw_time gr) \<or> raw_time gr = js ''SPIELFREI''"
    and "\<exists>c\<in>set (pairing gr). \<not> isSpace c"
proof -
  let ?Q = "\<lambda>x. isDatePattern (raw_date x)
                \<and> (isTimePattern (raw_time x) \<or> raw_time x = js ''SPIELFREI'')
                \<and> (\<exists>c\<in>set (pairing x). \<not> isSpace c)"
  have "\<forall>x\<in>set raws. ?Q x"
  proof (rule scanRows2_all[where Q = ?Q, OF _ assms(1)])
    fix k m g ven s
    assume k: "k < length (linesOf txt)" and m: "typeMatch (linesOf txt ! k) = Some m"
      and g: "dateTimeMatch (snd m) = Some g"
    obtain c d t p where gg: "g = (c, d, t, p)" by (cases g)
    from k have "linesOf txt ! k \<in> set (linesOf txt)" by simp
    note tr = linesOf_trimmed[OF this]
    from row_groups[OF tr m g[unfolded gg]]
    have "isDatePattern d" "isTimePattern t \<or> t = js ''SPIELFREI''" "\<exists>c\<in>set p. \<not> isSpace c"
      by blast+
    then have "isDatePattern d" "isTimePattern t \<or> t = js ''SPIELFREI''"
      "\<exists>c\<in>set (trim p). \<not> isSpace c"
      by (simp_all add: ink_trim_ex)
    then show "?Q (rawOfGroups k (fst m) g ven s)"
      by (simp add: rawOfGroups_def gg)
  qed simp
  with assms(2) show "isDatePattern (raw_date gr)"
    and "isTimePattern (raw_time gr) \<or> raw_time gr = js ''SPIELFREI''"
    and "\<exists>c\<in>set (pairing gr). \<not> isSpace c"
    by blast+
qed

lemma second_version_rows_wellformed:
  assumes "scanRows2 (linesOf txt) 0 [] [] = Some raws" and "gr \<in> set raws"
  shows "isDatePattern (raw_date gr)
     \<and> (isTimePattern (raw_time gr) \<or> raw_time gr = js ''SPIELFREI'')
     \<and> pairing gr \<noteq> []"
  using scanRows2_rows[OF assms] by auto

lemma second_version_homeTeam_nonempty:
  assumes "parseBFVText2 P txt = Some gs" and "g \<in> set gs"
  shows "homeTeam g \<noteq> []"
proof -
  from assms obtain raws where raws: "scanRows2 (linesOf txt) 0 [] [] = Some raws"
    and "g \<in> set (List.map_filter (mapRawToGame2 P) raws)"
    by (auto simp: parseBFVText2_def set_sortBy)
  then obtain gr where gr: "gr \<in> set raws" and a: "assemble P (suggestFieldFromVenue2 P) gr = Some g"
    unfolding mapRawToGame2_def by (blast dest: in_map_filterD)
  from scanRows2_rows(3)[OF raws gr] have "normalizeSpaces (pairing gr) \<noteq> []"
    by (rule ink_nonempty[OF ink_normalizeSpaces])
  from detect_homeTeam_nonempty[OF variants_nonempty this] assemble_SomeD(4)[OF a]
  show ?thesis by simp
qed

text \<open>
  With an upper-casing that keeps \<open>SPIELFREI\<close>, every record of the second parser has
  a kickoff \<open>HH:MM\<close>: no row without a fixture, in any letter case, gives a record.
\<close>

lemma second_version_times_are_kickoffs:
  assumes "toUpperCase P (js ''SPIELFREI'') = js ''SPIELFREI''"
    and "parseBFVText2 P txt = Some gs" and "g \<in> set gs"
  shows "isTimePattern (time g)"
proof -
  from assms(2,3) obtain raws where raws: "scanRows2 (linesOf txt) 0 [] [] = Some raws"
    and "g \<in> set (List.map_filter (mapRawToGame2 P) raws)"
    by (auto simp: parseBFVText2_def set_sortBy)
  then obtain gr where gr: "gr \<in> set raws"
    and a: "assemble P (suggestFieldFromVenue2 P) gr = Some g"
    unfolding mapRawToGame2_def by (blast dest: in_map_filterD)
  from second_version_rows_wellformed[OF raws gr]
  have "isTimePattern (raw_time gr) \<or> raw_time gr = js ''SPIELFREI''" by simp
  moreover from assemble_SomeD(1)[OF a] assms(1) have "raw_time gr \<noteq> js ''SPIELFREI''"
    by auto
  ultimately show ?thesis using assemble_SomeD(2)[OF a] by simp
qed

text \<open>The rows come in the order of their lines.\<close>

lemma lineIdx_rawOfGroups: "lineIdx (rawOfGroups k typ g ven s) = k"
  by (cases g) (simp add: rawOfGroups_def)

lemma scanRows2_appends:
  assumes "scanRows2 lines i sec raws = Some r"
  shows "\<exists>new. r = raws @ new \<and> sorted_wrt (<) (map lineIdx new)
               \<and> (\<forall>x\<in>set new. i \<le> lineIdx x)"
  using assms
proof (induction "length lines - i" arbitrary: i sec raws rule: less_induct)
  case less
  show ?case
  proof (cases "i < length lines")
    case False
    with less.prems have "r = raws" by (subst (asm) scanRows2.simps) simp
    then show ?thesis by simp
  next
    case True
    have IH: "\<exists>new. r = raws' @ new \<and> sorted_wrt (<) (map lineIdx new)
                    \<and> (\<forall>x\<in>set new. k \<le> lineIdx x)"
      if "i < k" "scanRows2 lines k sec' raws' = Some r" for k sec' raws'
    proof -
      from that(1) True have "length lines - k < length lines - i" by simp
      from less.hyps[OF this that(2)] show ?thesis .
    qed
    have skip: ?thesis if "scanRows2 lines (i + 1) sec' raws = Some r" for sec'
    proof -
      from IH[OF _ that] obtain new where "r = raws @ new" "sorted_wrt (<) (map lineIdx new)"
        "\<forall>x\<in>set new. i + 1 \<le> lineIdx x" by auto
      then show ?thesis by (intro exI[of _ new]) auto
    qed
    obtain j' v where jv: "venueLoop lines (i + 1) [] = Some (j', v)" and le: "i + 1 \<le> j'"
      using venueLoop_terminates[of lines "i + 1" "[]"] by blast
    from le have j: "j' - 1 + 1 = j'" "i < j'" by simp_all
    show ?thesis
    proof (cases "isHeaderSection2 (lines ! i)")
      case True
      with less.prems \<open>i < length lines\<close>
      have "scanRows2 lines (i + 1) (lines ! i) raws = Some r"
        by (subst (asm) scanRows2.simps) simp
      then show ?thesis by (rule skip)
    next
      case nh: False
      show ?thesis
      proof (cases "isRowStart (lines ! i)")
        case False
        with nh less.prems \<open>i < length lines\<close>
        have "scanRows2 lines (i + 1) sec raws = Some r"
          by (subst (asm) scanRows2.simps) simp
        then show ?thesis by (rule skip)
      next
        case rs: True
        show ?thesis
        proof (cases "typeMatch (lines ! i)")
          case None
          with nh rs less.prems \<open>i < length lines\<close>
          have "scanRows2 lines (i + 1) sec raws = Some r"
            by (subst (asm) scanRows2.simps) simp
          then show ?thesis by (rule skip)
        next
          case m: (Some m)
          show ?thesis
          proof (cases "dateTimeMatch (snd m)")
            case None
            with nh rs m less.prems \<open>i < length lines\<close>
            have "scanRows2 lines (i + 1) sec raws = Some r"
              by (subst (asm) scanRows2.simps) simp
            then show ?thesis by (rule skip)
          next
            case g: (Some g)
            let ?row = "rawOfGroups i (fst m) g v sec"
            from nh rs m g jv j less.prems \<open>i < length lines\<close>
            have "scanRows2 lines j' sec (raws @ [?row]) = Some r"
              by (subst (asm) scanRows2.simps) simp
            from IH[OF j(2) this] obtain new where new: "r = (raws @ [?row]) @ new"
              "sorted_wrt (<) (map lineIdx new)" "\<forall>x\<in>set new. j' \<le> lineIdx x"
              by blast
            with j(2) show ?thesis
              by (intro exI[of _ "?row # new"]) (auto simp: lineIdx_rawOfGroups)
          qed
        qed
      qed
    qed
  qed
qed

lemma scanRows2_in_line_order:
  "scanRows2 lines 0 [] [] = Some raws \<Longrightarrow> sorted_wrt (<) (map lineIdx raws)"
  by (drule scanRows2_appends) auto

section \<open>Rows without a fixture\<close>

text \<open>
  A pushed row whose kickoff upper-cases to \<open>SPIELFREI\<close> gives no record: both
  assemblers return nothing for it, no record of either parser's output has such a time,
  and each parser's output is assembled from the other rows alone.
\<close>

lemma spielfrei_rows_filtered:
  "(toUpperCase P (raw_time gr) = js ''SPIELFREI''
      \<longrightarrow> mapRawToGame P gr = None \<and> mapRawToGame2 P gr = None)
   \<and> (parseBFVText P txt = Some gs \<or> parseBFVText2 P txt = Some gs
      \<longrightarrow> (\<forall>g\<in>set gs. toUpperCase P (time g) \<noteq> js ''SPIELFREI''))
   \<and> parseBFVText P txt =
       map_option
         (\<lambda>raws. List.map_filter (mapRawToGame P)
            (filter (\<lambda>r. toUpperCase P (raw_time r) \<noteq> js ''SPIELFREI'') raws))
         (scanRows (linesOf txt) 0 [] [])
   \<and> parseBFVText2 P txt =
       map_option
         (\<lambda>raws. sortBy (\<lambda>a b. localeCompare P (dt a) (dt b))
            (List.map_filter (mapRawToGame2 P)
               (filter (\<lambda>r. toUpperCase P (raw_time r) \<noteq> js ''SPIELFREI'') raws)))
         (scanRows2 (linesOf txt) 0 [] [])"
proof (intro conjI impI ballI)
  assume "toUpperCase P (raw_time gr) = js ''SPIELFREI''"
  then show "mapRawToGame P gr = None" "mapRawToGame2 P gr = None"
    by (simp_all add: mapRawToGame_def mapRawToGame2_def assemble_None_iff)
next
  fix g
  assume "parseBFVText P txt = Some gs \<or> parseBFVText2 P txt = Some gs" and "g \<in> set gs"
  then have "\<exists>gr. mapRawToGame P gr = Some g \<or> mapRawToGame2 P gr = Some g"
    by (blast dest: parseBFVText_recordD parseBFVText2_recordD)
  then obtain gr suggest where a: "assemble P suggest gr = Some g"
    unfolding mapRawToGame_def mapRawToGame2_def by blast
  from assemble_SomeD(1,2)[OF a] show "toUpperCase P (time g) \<noteq> js ''SPIELFREI''"
    by simp
next
  have "(\<lambda>r. mapRawToGame P r \<noteq> None) = (\<lambda>r. toUpperCase P (raw_time r) \<noteq> js ''SPIELFREI'')"
    by (simp add: mapRawToGame_def assemble_None_iff)
  with map_filter_drop_None[of "mapRawToGame P"]
  show "parseBFVText P txt =
       map_option
         (\<lambda>raws. List.map_filter (mapRawToGame P)
            (filter (\<lambda>r. toUpperCase P (raw_time r) \<noteq> js ''SPIELFREI'') raws))
         (scanRows (linesOf txt) 0 [] [])"
    by (simp add: parseBFVText_def)
next
  have "(\<lambda>r. mapRawToGame2 P r \<noteq> None) = (\<lambda>r. toUpperCase P (raw_time r) \<noteq> js ''SPIELFREI'')"
    by (simp add: mapRawToGame2_def assemble_None_iff)
  with map_filter_drop_None[of "mapRawToGame2 P"]
  show "parseBFVText2 P txt =
       map_option
         (\<lambda>raws. sortBy (\<lambda>a b. localeCompare P (dt a) (dt b))
            (List.map_filter (mapRawToGame2 P)
               (filter (\<lambda>r. toUpperCase P (raw_time r) \<noteq> js ''SPIELFREI'') raws)))
         (scanRows2 (linesOf txt) 0 [] [])"
    by (simp add: parseBFVText2_def)
qed

section \<open>The sample inputs, evaluated\<close>

lemma sampleUnmatched_rows:
  "scanRows (linesOf sampleUnmatchedText) 0 [] [] = Some [sampleUnmatchedRaw]"
  by code_simp

lemma sampleUnmatched_game:
  "mapRawToGame samplePlatform sampleUnmatchedRaw = Some sampleUnmatchedGame"
  by code_simp

lemma sampleUnmatched_parse:
  "parseBFVText samplePlatform sampleUnmatchedText = Some [sampleUnmatchedGame]"
  by (simp add: parseBFVText_def sampleUnmatched_rows sampleUnmatched_game List.map_filter_def)

lemma sampleUnmatched_parse2:
  "parseBFVText2 samplePlatform sampleUnmatchedText = Some []"
  by code_simp

lemma sampleHome_game: "mapRawToGame samplePlatform sampleHomeRaw = Some sampleHomeGame"
  by code_simp

lemma sampleLowerBye_rows:
  "scanRows (linesOf sampleLowerByeText) 0 [] [] = Some [sampleUnmatchedRaw]"
  by code_simp

lemma sampleLowerBye_parse2:
  "parseBFVText2 samplePlatform sampleLowerByeText = Some []"
  by code_simp

lemma spielfrei_rows_filtered_example:
  "toUpperCase samplePlatform (raw_time sampleByeRaw) = js ''SPIELFREI''
   \<and> mapRawToGame samplePlatform sampleByeRaw = None
   \<and> mapRawToGame2 samplePlatform sampleByeRaw = None
   \<and> parseBFVText2 samplePlatform sampleByeText = Some [sampleAwayGame]
   \<and> toUpperCase samplePlatform (time sampleAwayGame) \<noteq> js ''SPIELFREI''"
proof -
  have h1: "toUpperCase samplePlatform (raw_time sampleByeRaw) = js ''SPIELFREI''"
    by code_simp
  have h2: "parseBFVText2 samplePlatform sampleByeText = Some [sampleAwayGame]"
    by code_simp
  from spielfrei_rows_filtered[of samplePlatform sampleByeRaw sampleByeText "[sampleAwayGame]"] h1 h2
  show ?thesis by simp
qed

section \<open>The claims\<close>

text \<open>
  C1. The first parser (lines 116 to 157) pushes a row for a row start whose remainder
  does not match the row pattern, with an empty date, and assembles a record from it
  whose date is what the date library makes of no date. The second parser (lines 399 to
  484) drops the same line, as it drops every such line
  (\<open>second_version_rows_wellformed\<close>).
\<close>

theorem unmatched_row_emitted:
  "scanRows (linesOf sampleUnmatchedText) 0 [] [] = Some [sampleUnmatchedRaw]
   \<and> raw_date sampleUnmatchedRaw = []
   \<and> parseBFVText samplePlatform sampleUnmatchedText = Some [sampleUnmatchedGame]
   \<and> date sampleUnmatchedGame = js ''Invalid Date''
   \<and> parseBFVText2 samplePlatform sampleUnmatchedText = Some []"
  by (simp add: sampleUnmatched_rows sampleUnmatched_parse sampleUnmatched_parse2
        sampleUnmatchedRaw_def sampleUnmatchedGame_def)

text \<open>
  C2. A row whose kickoff is the sentinel in lower case does not match the row pattern,
  which spells \<open>SPIELFREI\<close> in upper case only. The first parser (lines 116 to 157)
  pushes a row for the line all the same and, on every platform where the empty kickoff of
  that row does not upper-case to \<open>SPIELFREI\<close>, assembles a record from it. The second
  parser drops the line; every record of its output has a kickoff of the form
  \<open>HH:MM\<close> (\<open>second_version_times_are_kickoffs\<close>). A row that the tokenizer has pushed
  with a kickoff that upper-cases to \<open>SPIELFREI\<close> gives no record in either version
  (\<open>spielfrei_rows_filtered\<close>).
\<close>

theorem lowercase_bye_row_emitted:
  "scanRows (linesOf sampleLowerByeText) 0 [] [] = Some [sampleUnmatchedRaw]
   \<and> (parseBFVText P sampleLowerByeText = Some []) = (toUpperCase P [] = js ''SPIELFREI'')
   \<and> parseBFVText samplePlatform sampleLowerByeText = Some [sampleUnmatchedGame]
   \<and> parseBFVText2 samplePlatform sampleLowerByeText = Some []"
proof -
  have n: "(mapRawToGame P sampleUnmatchedRaw = None) = (toUpperCase P [] = js ''SPIELFREI'')"
    by (simp add: mapRawToGame_def assemble_None_iff sampleUnmatchedRaw_def)
  have "(parseBFVText P sampleLowerByeText = Some []) = (toUpperCase P [] = js ''SPIELFREI'')"
    unfolding n[symmetric]
    by (cases "mapRawToGame P sampleUnmatchedRaw")
       (simp_all add: parseBFVText_def sampleLowerBye_rows List.map_filter_def)
  moreover have "parseBFVText samplePlatform sampleLowerByeText = Some [sampleUnmatchedGame]"
    by (simp add: parseBFVText_def sampleLowerBye_rows sampleUnmatched_game List.map_filter_def)
  ultimately show ?thesis by (simp add: sampleLowerBye_rows sampleLowerBye_parse2)
qed

text \<open>
  C3. As stated, the claim fails: with the variants of the program, a pairing that matches
  \<open>TSV Lonnerstadt 2\<close> (of which \<open>TSV Lonnerstadt\<close> is a strict prefix) can match
  \<open>TSV Lonnerstadt 2 (7er)\<close> as well, and that one becomes the home team.
\<close>

theorem longer_of_pair_counterexample:
  "js ''TSV Lonnerstadt'' \<in> set OUR_TEAM_PREFIXES
   \<and> js ''TSV Lonnerstadt 2'' \<in> set OUR_TEAM_PREFIXES
   \<and> strict_prefix (js ''TSV Lonnerstadt'') (js ''TSV Lonnerstadt 2'')
   \<and> leftMatch (normalizeSpaces sampleChainPairing) (js ''TSV Lonnerstadt 2'')
   \<and> split_homeTeam (detectHomeAndSplit OUR_TEAM_PREFIXES sampleChainPairing)
        = js ''TSV Lonnerstadt 2 (7er)''
   \<and> split_homeTeam (detectHomeAndSplit OUR_TEAM_PREFIXES sampleChainPairing)
        \<noteq> js ''TSV Lonnerstadt 2''"
  by code_simp

text \<open>
  C3, amended. When a configured variant \<open>b\<close> matches the pairing as a left-anchored
  prefix, the home team is a configured variant that matches too and is at least as long as
  every matching variant; \<open>b\<close> is a prefix of it, and it is no strict prefix of \<open>b\<close>.
\<close>

theorem longest_matching_variant_wins:
  assumes "b \<in> set variants" and "leftMatch (normalizeSpaces p) b"
  shows "split_isHome (detectHomeAndSplit variants p)
     \<and> split_homeTeam (detectHomeAndSplit variants p) \<in> set variants
     \<and> leftMatch (normalizeSpaces p) (split_homeTeam (detectHomeAndSplit variants p))
     \<and> (\<forall>v\<in>set variants. leftMatch (normalizeSpaces p) v
           \<longrightarrow> length v \<le> length (split_homeTeam (detectHomeAndSplit variants p)))
     \<and> prefix b (split_homeTeam (detectHomeAndSplit variants p))
     \<and> (\<forall>a. strict_prefix a b \<longrightarrow> split_homeTeam (detectHomeAndSplit variants p) \<noteq> a)"
proof -
  let ?text = "normalizeSpaces p"
  from assms have "find (leftMatch ?text) (sortByLengthDesc variants) \<noteq> None"
    by (auto simp: find_None_set set_sortByLengthDesc)
  then obtain h where h: "find (leftMatch ?text) (sortByLengthDesc variants) = Some h"
    by blast
  note r = detect_left_homeTeam[OF h]
  from find_SomeD[OF h] have hv: "h \<in> set variants" and hm: "leftMatch ?text h"
    by (simp_all add: set_sortByLengthDesc)
  have longest: "length v \<le> length h" if "v \<in> set variants" "leftMatch ?text v" for v
    using find_first_longest[OF sortByLengthDesc_sorted h] that
    by (simp add: set_sortByLengthDesc)
  from longest[OF assms] have bl: "length b \<le> length h" .
  from assms(2) have pb: "prefix b ?text"
    by (auto simp: leftMatch_def startsWith_def dest: append_prefixD)
  from hm have ph: "prefix h ?text"
    by (auto simp: leftMatch_def startsWith_def dest: append_prefixD)
  from pb ph bl have bh: "prefix b h"
    by (metis prefix_length_prefix)
  have "h \<noteq> a" if "strict_prefix a b" for a
  proof
    assume "h = a"
    with that have "length h < length b"
      by (metis prefix_length_less)
    with bl show False by simp
  qed
  with hv hm longest bh show ?thesis by (simp add: r)
qed

theorem longest_matching_variant_wins_witness:
  "js ''TSV Lonnerstadt 2'' \<in> set OUR_TEAM_PREFIXES
   \<and> leftMatch (normalizeSpaces sampleChainPairing) (js ''TSV Lonnerstadt 2'')
   \<and> js ''TSV Lonnerstadt'' \<in> set OUR_TEAM_PREFIXES
   \<and> leftMatch (normalizeSpaces sampleChainPairing) (js ''TSV Lonnerstadt'')
   \<and> strict_prefix (js ''TSV Lonnerstadt'') (js ''TSV Lonnerstadt 2'')
   \<and> length (js ''TSV Lonnerstadt'')
        \<le> length (split_homeTeam (detectHomeAndSplit OUR_TEAM_PREFIXES sampleChainPairing))
   \<and> split_homeTeam (detectHomeAndSplit OUR_TEAM_PREFIXES sampleChainPairing)
        \<noteq> js ''TSV Lonnerstadt''"
proof -
  have h1: "js ''TSV Lonnerstadt 2'' \<in> set OUR_TEAM_PREFIXES" by code_simp
  have h2: "leftMatch (normalizeSpaces sampleChainPairing) (js ''TSV Lonnerstadt 2'')"
    by code_simp
  have h3: "js ''TSV Lonnerstadt'' \<in> set OUR_TEAM_PREFIXES" by code_simp
  have h4: "leftMatch (normalizeSpaces sampleChainPairing) (js ''TSV Lonnerstadt'')"
    by code_simp
  have h5: "strict_prefix (js ''TSV Lonnerstadt'') (js ''TSV Lonnerstadt 2'')"
    by code_simp
  from longest_matching_variant_wins[OF h1 h2] h1 h2 h3 h4 h5 show ?thesis by blast
qed

text \<open>
  C4. As stated, the claim fails for the first parser (lines 116 to 157), which returns
  the records in the order of their rows and does not sort; its caller sorts.
\<close>

theorem first_version_unsorted_counterexample:
  "parseBFVText samplePlatform sampleUnorderedText = Some [sampleAwayGame, sampleHomeGameNoVenue]
   \<and> \<not> localeCompare samplePlatform (dt sampleAwayGame) (dt sampleHomeGameNoVenue) \<le> 0"
  by code_simp

text \<open>
  C4, amended. The second parser (lines 399 to 484) sorts: when \<open>localeCompare\<close> is a
  consistent comparator, its output is non-decreasing in \<open>dt\<close>. The rows are pushed in
  the order of their lines; the output holds the records of the rows and no others, and
  records that tie in \<open>dt\<close> keep the order of their rows.
\<close>

theorem sorted_output_second_version:
  assumes "consistentComparator (localeCompare P)" and "parseBFVText2 P txt = Some gs"
  shows "sorted_wrt (\<lambda>a b. localeCompare P (dt a) (dt b) \<le> 0) gs
     \<and> sorted_wrt (<) (map lineIdx (the (scanRows2 (linesOf txt) 0 [] [])))
     \<and> set gs = set (List.map_filter (mapRawToGame2 P) (the (scanRows2 (linesOf txt) 0 [] [])))
     \<and> (\<forall>k. filter (\<lambda>g. localeCompare P k (dt g) \<le> 0 \<and> localeCompare P (dt g) k \<le> 0) gs
            = filter (\<lambda>g. localeCompare P k (dt g) \<le> 0 \<and> localeCompare P (dt g) k \<le> 0)
                (List.map_filter (mapRawToGame2 P) (the (scanRows2 (linesOf txt) 0 [] []))))"
proof -
  let ?cmp = "\<lambda>a b. localeCompare P (dt a) (dt b)"
  let ?rows = "List.map_filter (mapRawToGame2 P) (the (scanRows2 (linesOf txt) 0 [] []))"
  from assms(1) have c: "consistentComparator ?cmp" by (rule consistent_on_key)
  from assms(2) have gs: "gs = sortBy ?cmp ?rows"
    by (auto simp: parseBFVText2_def)
  from assms(2) obtain raws where "scanRows2 (linesOf txt) 0 [] [] = Some raws"
    by (auto simp: parseBFVText2_def)
  then have "sorted_wrt (<) (map lineIdx (the (scanRows2 (linesOf txt) 0 [] [])))"
    by (simp add: scanRows2_in_line_order)
  with sorted_sortBy[OF c, of ?rows] filter_sortBy_tie[OF assms(1), of _ dt ?rows]
  show ?thesis
    by (simp add: gs set_sortBy)
qed

theorem sorted_output_second_version_witness:
  "consistentComparator (localeCompare samplePlatform)
   \<and> parseBFVText2 samplePlatform sampleUnorderedText = Some [sampleHomeGame, sampleAwayGame]
   \<and> sorted_wrt (\<lambda>a b. localeCompare samplePlatform (dt a) (dt b) \<le> 0)
        [sampleHomeGame, sampleAwayGame]"
proof -
  have c: "consistentComparator (localeCompare samplePlatform)"
    by (simp add: samplePlatform_def unitCompare_consistent)
  have p: "parseBFVText2 samplePlatform sampleUnorderedText = Some [sampleHomeGame, sampleAwayGame]"
    by code_simp
  from sorted_output_second_version[OF c p] c p show ?thesis by blast
qed

text \<open>
  C5. In the output of either parser, a record that is not a home fixture has no
  suggested field.
\<close>

theorem away_fixture_no_suggestion:
  assumes "parseBFVText P txt = Some gs \<or> parseBFVText2 P txt = Some gs"
    and "g \<in> set gs" and "\<not> isHome g"
  shows "suggestedField g = None"
proof -
  from assms(1,2) have "\<exists>gr. mapRawToGame P gr = Some g \<or> mapRawToGame2 P gr = Some g"
    by (blast dest: parseBFVText_recordD parseBFVText2_recordD)
  then obtain gr suggest where "assemble P suggest gr = Some g"
    unfolding mapRawToGame_def mapRawToGame2_def by blast
  from assemble_SomeD(5)[OF this] assms(3) show ?thesis by simp
qed

theorem away_fixture_no_suggestion_witness:
  "parseBFVText samplePlatform sampleAwayText = Some [sampleAwayGame]
   \<and> sampleAwayGame \<in> set [sampleAwayGame] \<and> \<not> isHome sampleAwayGame
   \<and> suggestedField sampleAwayGame = None"
proof -
  have p: "parseBFVText samplePlatform sampleAwayText = Some [sampleAwayGame]"
    by code_simp
  have m: "sampleAwayGame \<in> set [sampleAwayGame]" by simp
  have h: "\<not> isHome sampleAwayGame" by (simp add: sampleAwayGame_def)
  from away_fixture_no_suggestion[OF disjI1[OF p] m h] p m h show ?thesis by simp
qed

text \<open>
  C6. The splitter reports a home fixture exactly when some variant is a left-anchored
  prefix of the normalized pairing (the pairing starts with the variant and a space, or
  is the variant); so does every record that either assembler makes of a row.
\<close>

theorem isHome_iff_left_anchored:
  "(split_isHome (detectHomeAndSplit variants p)
      \<longleftrightarrow> (\<exists>v\<in>set variants.
             startsWith (normalizeSpaces p) (v @ js '' '') \<or> normalizeSpaces p = v))
   \<and> (mapRawToGame P gr = Some g \<or> mapRawToGame2 P gr = Some g
      \<longrightarrow> (isHome g
            \<longleftrightarrow> (\<exists>v\<in>set OUR_TEAM_PREFIXES.
                   startsWith (normalizeSpaces (pairing gr)) (v @ js '' '')
                   \<or> normalizeSpaces (pairing gr) = v)))"
proof (intro conjI impI)
  show "split_isHome (detectHomeAndSplit variants p)
      \<longleftrightarrow> (\<exists>v\<in>set variants.
             startsWith (normalizeSpaces p) (v @ js '' '') \<or> normalizeSpaces p = v)"
    using detect_isHome_iff[of variants p] by (simp add: leftMatch_def)
next
  assume "mapRawToGame P gr = Some g \<or> mapRawToGame2 P gr = Some g"
  then obtain suggest where "assemble P suggest gr = Some g"
    unfolding mapRawToGame_def mapRawToGame2_def by blast
  from assemble_SomeD(3)[OF this]
  show "isHome g
      \<longleftrightarrow> (\<exists>v\<in>set OUR_TEAM_PREFIXES.
             startsWith (normalizeSpaces (pairing gr)) (v @ js '' '')
             \<or> normalizeSpaces (pairing gr) = v)"
    using detect_isHome_iff[of OUR_TEAM_PREFIXES "pairing gr"] by (simp add: leftMatch_def)
qed

theorem isHome_iff_left_anchored_witness:
  "mapRawToGame samplePlatform sampleHomeRaw = Some sampleHomeGame
   \<and> isHome sampleHomeGame
   \<and> (\<exists>v\<in>set OUR_TEAM_PREFIXES.
         startsWith (normalizeSpaces (pairing sampleHomeRaw)) (v @ js '' '')
         \<or> normalizeSpaces (pairing sampleHomeRaw) = v)"
proof -
  have h: "isHome sampleHomeGame" by (simp add: sampleHomeGame_def)
  from isHome_iff_left_anchored[of _ _ samplePlatform sampleHomeRaw sampleHomeGame]
    sampleHome_game h
  show ?thesis by blast
qed

text \<open>
  C7. The record that the first parser assembles from a row start that does not match
  the row pattern has an empty \<open>homeTeam\<close>. (Every record of the second parser has a
  home team: \<open>second_version_homeTeam_nonempty\<close>.)
\<close>

theorem unmatched_row_empty_homeTeam:
  "parseBFVText samplePlatform sampleUnmatchedText = Some [sampleUnmatchedGame]
   \<and> homeTeam sampleUnmatchedGame = []
   \<and> map homeTeam (the (parseBFVText samplePlatform sampleUnmatchedText)) = [Nil]"
  by (simp add: sampleUnmatched_parse sampleUnmatchedGame_def)

text \<open>
  C8. Both parsers return a list of records for every platform and every input text:
  their loops end. The empty text gives the empty list.
\<close>

theorem parse_total:
  "(\<exists>gs. parseBFVText P txt = Some gs) \<and> (\<exists>gs. parseBFVText2 P txt = Some gs)
   \<and> parseBFVText P [] = Some [] \<and> parseBFVText2 P [] = Some []"
proof -
  have e: "linesOf [] = []" by (simp add: linesOf_def splitLines_def trim_def replaceNbsp_def)
  have "scanRows [] 0 [] [] = Some []" by (subst scanRows.simps) simp
  moreover have "scanRows2 [] 0 [] [] = Some []" by (subst scanRows2.simps) simp
  ultimately show ?thesis
    using scanRows_terminates[of "linesOf txt" 0 "[]" "[]"]
      scanRows2_terminates[of "linesOf txt" 0 "[]" "[]"]
    by (auto simp: parseBFVText_def parseBFVText2_def e List.map_filter_def sortBy_def)
qed

text \<open>
  C9. For a home fixture whose lower-cased venue holds none of the away-ground keywords
  and holds the home-ground phrase (\<open>am sonnenhuegel\<close> with u-umlaut; in the second
  version also \<open>sportgelaende\<close> with a-umlaut), the suggested field follows the pitch
  token: \<open>platz 1\<close> gives A, else \<open>platz 2\<close> gives B, else \<open>platz 3\<close> gives C, else A.
\<close>

theorem home_ground_pitch_field:
  assumes "mapRawToGame P gr = Some g \<or> mapRawToGame2 P gr = Some g"
    and "isHome g"
    and "v = toLowerCase P (venue g)"
    and "\<not> jsIncludes v (js ''frimmersdorf'')"
    and "\<not> jsIncludes v (js ''vestenbergsgreuth'')"
    and "\<not> (jsIncludes v (js ''weisendorf'') \<and> jsIncludes v (js ''kunstrasen''))"
    and "jsIncludes v (js ''am sonnenh'' @ [u_umlaut] @ js ''gel'')
         \<or> (mapRawToGame2 P gr = Some g
            \<and> jsIncludes v (js ''sportgel'' @ [a_umlaut] @ js ''nde''))"
  shows "suggestedField g =
           Some (if jsIncludes v (js ''platz 1'') then Field_A
                 else if jsIncludes v (js ''platz 2'') then Field_B
                 else if jsIncludes v (js ''platz 3'') then Field_C
                 else Field_A)"
proof -
  note sg = suggest_home_ground[OF _ assms(4-6)]
  have "suggestedField g = Some (platzField v)"
  proof (cases "mapRawToGame2 P gr = Some g")
    case True
    then have a: "assemble P (suggestFieldFromVenue2 P) gr = Some g"
      by (simp add: mapRawToGame2_def)
    from assms(3) assemble_SomeD(6)[OF a] have v: "v = toLowerCase P (raw_venue gr)" by simp
    from assms(7) have "suggestFieldFromVenue2 P (raw_venue gr) = Some (platzField v)"
      by (intro sg(2)[OF v]) blast
    with assemble_SomeD(5)[OF a] assms(2) show ?thesis by simp
  next
    case False
    with assms(1) have a: "assemble P (suggestFieldFromVenue P) gr = Some g"
      by (simp add: mapRawToGame_def)
    from assms(3) assemble_SomeD(6)[OF a] have v: "v = toLowerCase P (raw_venue gr)" by simp
    from assms(7) False have "suggestFieldFromVenue P (raw_venue gr) = Some (platzField v)"
      by (intro sg(1)[OF v]) blast
    with assemble_SomeD(5)[OF a] assms(2) show ?thesis by simp
  qed
  then show ?thesis by (simp add: platzField_def)
qed

theorem home_ground_pitch_field_witness:
  "mapRawToGame samplePlatform sampleHomeRaw = Some sampleHomeGame
   \<and> isHome sampleHomeGame
   \<and> \<not> jsIncludes (toLowerCase samplePlatform (venue sampleHomeGame)) (js ''frimmersdorf'')
   \<and> \<not> jsIncludes (toLowerCase samplePlatform (venue sampleHomeGame)) (js ''vestenbergsgreuth'')
   \<and> \<not> (jsIncludes (toLowerCase samplePlatform (venue sampleHomeGame)) (js ''weisendorf'')
         \<and> jsIncludes (toLowerCase samplePlatform (venue sampleHomeGame)) (js ''kunstrasen''))
   \<and> jsIncludes (toLowerCase samplePlatform (venue sampleHomeGame))
        (js ''am sonnenh'' @ [u_umlaut] @ js ''gel'')
   \<and> \<not> jsIncludes (toLowerCase samplePlatform (venue sampleHomeGame)) (js ''platz 1'')
   \<and> jsIncludes (toLowerCase samplePlatform (venue sampleHomeGame)) (js ''platz 2'')
   \<and> suggestedField sampleHomeGame = Some Field_B"
proof -
  let ?v = "toLowerCase samplePlatform (venue sampleHomeGame)"
  have h: "isHome sampleHomeGame" by (simp add: sampleHomeGame_def)
  have n1: "\<not> jsIncludes ?v (js ''frimmersdorf'')" by code_simp
  have n2: "\<not> jsIncludes ?v (js ''vestenbergsgreuth'')" by code_simp
  have n3: "\<not> (jsIncludes ?v (js ''weisendorf'') \<and> jsIncludes ?v (js ''kunstrasen''))"
    by code_simp
  have y: "jsIncludes ?v (js ''am sonnenh'' @ [u_umlaut] @ js ''gel'')" by code_simp
  have p1: "\<not> jsIncludes ?v (js ''platz 1'')" by code_simp
  have p2: "jsIncludes ?v (js ''platz 2'')" by code_simp
  from home_ground_pitch_field[OF disjI1[OF sampleHome_game] h refl n1 n2 n3 disjI1[OF y]]
  have "suggestedField sampleHomeGame = Some Field_B" using p1 p2 by simp
  with sampleHome_game h n1 n2 n3 y p1 p2 show ?thesis by blast
qed

text \<open>
  C10. When the splitter reports a home fixture, the home team, a space and the away
  team make up the normalized pairing; when the away team is empty, the home team is the
  normalized pairing.
\<close>

theorem home_split_lossless:
  assumes "split_isHome (detectHomeAndSplit variants p)"
  shows "(split_awayTeam (detectHomeAndSplit variants p) = []
            \<longrightarrow> split_homeTeam (detectHomeAndSplit variants p) = normalizeSpaces p)
       \<and> (split_awayTeam (detectHomeAndSplit variants p) \<noteq> []
            \<longrightarrow> split_homeTeam (detectHomeAndSplit variants p) @ js '' ''
                  @ split_awayTeam (detectHomeAndSplit variants p) = normalizeSpaces p)"
proof -
  from assms have "find (leftMatch (normalizeSpaces p)) (sortByLengthDesc variants) \<noteq> None"
    by (simp add: detect_isHome_iff find_None_set set_sortByLengthDesc)
  then obtain h where
    h: "find (leftMatch (normalizeSpaces p)) (sortByLengthDesc variants) = Some h"
    by blast
  from find_SomeD[OF h] have "leftMatch (normalizeSpaces p) h" by simp
  from leftMatch_rest[OF this] show ?thesis
    by (auto simp: detect_left_homeTeam[OF h] js_space)
qed

theorem home_split_lossless_witness:
  "split_isHome (detectHomeAndSplit OUR_TEAM_PREFIXES sampleSpacedPairing)
   \<and> split_awayTeam (detectHomeAndSplit OUR_TEAM_PREFIXES sampleSpacedPairing) \<noteq> []
   \<and> normalizeSpaces sampleSpacedPairing = js ''TSV Lonnerstadt SpVgg Reuth''
   \<and> split_homeTeam (detectHomeAndSplit OUR_TEAM_PREFIXES sampleSpacedPairing) @ js '' ''
        @ split_awayTeam (detectHomeAndSplit OUR_TEAM_PREFIXES sampleSpacedPairing)
      = normalizeSpaces sampleSpacedPairing"
proof -
  have h: "split_isHome (detectHomeAndSplit OUR_TEAM_PREFIXES sampleSpacedPairing)"
    by code_simp
  have a: "split_awayTeam (detectHomeAndSplit OUR_TEAM_PREFIXES sampleSpacedPairing) \<noteq> []"
    by code_simp
  have n: "normalizeSpaces sampleSpacedPairing = js ''TSV Lonnerstadt SpVgg Reuth''"
    by code_simp
  from home_split_lossless[OF h] h a n show ?thesis by simp
qed

end
